theory Spec2Isabelle
  imports Main "HOL-Library.Word"
begin

section \<open>The scheduler of scheduler.go\<close>

text \<open>
  The package runs one goroutine per registered Schedule (\<open>scheduleLoop\<close>) and one
  consumer goroutine (\<open>workerLoop\<close>) per Scheduler.  They communicate through the
  shared channel \<open>jobch\<close> and one \<open>confirmationChannel\<close> per Schedule, both made with
  capacity 1.  The goroutines are modelled by an interleaving semantics: a state holds the
  control point and the local variables of every goroutine, the contents of the channels and
  the reading of the monotonic clock; an action is one atomic statement of one goroutine.
  A blocked statement is an action that is not enabled (\<open>None\<close>).
\<close>

subsection \<open>Durations, clock readings and channels\<close>

text \<open>\<open>time.Duration\<close> is an \<open>int64\<close> count of nanoseconds; its arithmetic wraps.\<close>

type_synonym Duration = "64 word"

text \<open>A reading of the monotonic clock, in nanoseconds.\<close>

type_synonym Time = int

text \<open>A \<open>*Schedule\<close>: the address of a Schedule value on the heap.\<close>

type_synonym addr = nat

type_synonym confirmation = bool

definition time_Nanosecond :: Duration where
  "time_Nanosecond = 1"

text \<open>
  \<open>time.Since(t)\<close> evaluated when the clock reads \<open>now\<close>: the difference of the two
  readings, saturated to the range of \<open>time.Duration\<close> as \<open>Time.Sub\<close> does.
\<close>

definition time_Since :: "Time \<Rightarrow> Time \<Rightarrow> Duration" where
  "time_Since t now =
     (if 2 ^ 63 - 1 < now - t then word_of_int (2 ^ 63 - 1)
      else if now - t < - (2 ^ 63) then word_of_int (- (2 ^ 63))
      else word_of_int (now - t))"

text \<open>
  A buffered channel \<open>make(chan T, n)\<close> with \<open>n > 0\<close>: a send blocks while the buffer holds
  \<open>n\<close> values, a receive blocks while it is empty.
\<close>

record 'a chan =
  cap :: nat
  buf :: "'a list"

definition make_chan :: "nat \<Rightarrow> 'a chan" where
  "make_chan n = \<lparr>cap = n, buf = []\<rparr>"

definition chan_send :: "'a \<Rightarrow> 'a chan \<Rightarrow> 'a chan option" where
  "chan_send x c = (if length (buf c) < cap c then Some (c\<lparr>buf := buf c @ [x]\<rparr>) else None)"

definition chan_recv :: "'a chan \<Rightarrow> ('a \<times> 'a chan) option" where
  "chan_recv c = (case buf c of [] \<Rightarrow> None | x # xs \<Rightarrow> Some (x, c\<lparr>buf := xs\<rparr>))"

text \<open>
  The runtime's \<open>when(d)\<close>: the clock reading at which a timer started now with the
  duration \<open>d\<close> expires.  A duration that is not positive gives the current reading; the
  sum is formed in \<open>int64\<close>, and a sum that has wrapped to a negative value is replaced by
  \<open>2 ^ 63 - 1\<close>.  The reading \<open>now\<close> is the \<open>int64\<close> that \<open>runtimeNano()\<close> returned.
\<close>

definition time_when :: "Time \<Rightarrow> Duration \<Rightarrow> Time" where
  "time_when now d =
     (if sint d \<le> 0 then now
      else let t = sint (word_of_int now + d) in if t < 0 then 2 ^ 63 - 1 else t)"

text \<open>
  A \<open>*time.Timer\<close>: \<open>expiry\<close> is the clock reading at which the running timer expires
  (\<open>None\<close> once it has expired), \<open>timerC\<close> the buffer of its channel \<open>C\<close>, which holds at
  most one value.  \<open>Timer_expire\<close> is the runtime's non-blocking send on \<open>C\<close>.
\<close>

record Timer =
  expiry :: "Time option"
  timerC :: "Time list"

definition time_NewTimer :: "Time \<Rightarrow> Duration \<Rightarrow> Timer" where
  "time_NewTimer now d = \<lparr>expiry = Some (time_when now d), timerC = []\<rparr>"

definition Timer_Reset :: "Time \<Rightarrow> Duration \<Rightarrow> Timer \<Rightarrow> Timer" where
  "Timer_Reset now d t = t\<lparr>expiry := Some (time_when now d)\<rparr>"

definition Timer_expire :: "Time \<Rightarrow> Timer \<Rightarrow> Timer" where
  "Timer_expire now t = \<lparr>expiry = None, timerC = (if timerC t = [] then [now] else timerC t)\<rparr>"

subsection \<open>Schedule and Scheduler\<close>

record 'w Schedule =
  interval :: Duration
  worker :: 'w
  confirmationChannel :: "confirmation chan"

record Scheduler =
  schedules :: "addr list"
  jobch :: "addr chan"

text \<open>
  Lines 97 to 101 of \<open>scheduleLoop\<close>: the duration the timer is reset with, from the
  Schedule's interval and \<open>passedTime = time.Since(startTime)\<close>.
\<close>

definition waitTime :: "Duration \<Rightarrow> Duration \<Rightarrow> Duration" where
  "waitTime ival passedTime =
     (let w = ival - passedTime in if sint w < 0 then time_Nanosecond else w)"

subsection \<open>Goroutines and the state of the system\<close>

text \<open>
  The consumer goroutine is before the receive of line 52, inside \<open>PerformWork\<close> of the
  Schedule it received (line 53), or at the send of line 54.
\<close>

datatype worker_pc = AtRecv | AtPerformWork addr | AtConfirm addr

text \<open>
  A timing goroutine is created by the \<open>go\<close> statement of line 80 and has not yet run
  (\<open>Spawned\<close>), or it runs with its locals \<open>timer\<close> and \<open>startTime\<close>, at the
  \<open>select\<close> of line 87 or at the send of line 91.
\<close>

datatype loop_pc = AtSelect | AtSend

datatype loop_state = Spawned | Running loop_pc Timer Time

text \<open>What an instrumented run records about the consumer, with the clock reading.\<close>

datatype obs = Begin addr Time | Finish addr Time | Ack addr Time

record 'w state =
  clock :: Time
  brk :: addr
  heap :: "addr \<rightharpoonup> 'w Schedule"
  scheduler :: Scheduler
  worker_at :: worker_pc
  loops :: "addr \<rightharpoonup> loop_state"
  observed :: "obs list"

text \<open>
  \<open>New\<close> (lines 41 to 48), called when the clock reads \<open>t0\<close>: the Scheduler has no
  schedules and a job channel of capacity 1, and the one consumer goroutine is started.
\<close>

definition New :: "Time \<Rightarrow> 'w state" where
  "New t0 =
     \<lparr>clock = t0, brk = 0, heap = Map.empty,
      scheduler = \<lparr>schedules = [], jobch = make_chan 1\<rparr>,
      worker_at = AtRecv, loops = Map.empty, observed = []\<rparr>"

text \<open>
  \<open>AddSchedule\<close> (lines 73 to 81): allocates the Schedule at the fresh address \<open>brk\<close>,
  appends the address to \<open>schedules\<close> and starts the timing goroutine of the Schedule.
\<close>

definition AddSchedule :: "'w \<Rightarrow> Duration \<Rightarrow> 'w state \<Rightarrow> 'w state" where
  "AddSchedule w ival s =
     (let a = brk s;
          schedule = \<lparr>interval = ival, worker = w, confirmationChannel = make_chan 1\<rparr>
      in s\<lparr>brk := Suc a,
            heap := (heap s)(a \<mapsto> schedule),
            scheduler := (scheduler s)\<lparr>schedules := schedules (scheduler s) @ [a]\<rparr>,
            loops := (loops s)(a \<mapsto> Spawned)\<rparr>)"

text \<open>The atomic statements of the consumer goroutine (lines 50 to 56).\<close>

datatype worker_action = Recv | Return | Confirm

definition workerLoop :: "worker_action \<Rightarrow> 'w state \<Rightarrow> 'w state option" where
  "workerLoop act s =
     (case (act, worker_at s) of
        (Recv, AtRecv) \<Rightarrow>
          (case chan_recv (jobch (scheduler s)) of
             None \<Rightarrow> None
           | Some (a, ch) \<Rightarrow>
               Some (s\<lparr>scheduler := (scheduler s)\<lparr>jobch := ch\<rparr>,
                       worker_at := AtPerformWork a,
                       observed := observed s @ [Begin a (clock s)]\<rparr>))
      | (Return, AtPerformWork a) \<Rightarrow>
          Some (s\<lparr>worker_at := AtConfirm a,
                  observed := observed s @ [Finish a (clock s)]\<rparr>)
      | (Confirm, AtConfirm a) \<Rightarrow>
          (case heap s a of
             None \<Rightarrow> None
           | Some sc \<Rightarrow>
               (case chan_send True (confirmationChannel sc) of
                  None \<Rightarrow> None
                | Some ch \<Rightarrow>
                    Some (s\<lparr>heap := (heap s)(a \<mapsto> sc\<lparr>confirmationChannel := ch\<rparr>),
                            worker_at := AtRecv,
                            observed := observed s @ [Ack a (clock s)]\<rparr>)))
      | _ \<Rightarrow> None)"

text \<open>
  The atomic statements of the timing goroutine of the Schedule at address \<open>a\<close> (lines 83
  to 105): \<open>Start\<close> is lines 84 and 85, \<open>SelectTimer\<close> the first case of the \<open>select\<close> up
  to line 90, \<open>Send\<close> line 91, \<open>SelectConfirmation\<close> the second case (lines 96 to 102).
  When both cases of the \<open>select\<close> are ready, either action is enabled.
\<close>

datatype loop_action = Start | SelectTimer | Send | SelectConfirmation

definition scheduleLoop :: "addr \<Rightarrow> loop_action \<Rightarrow> 'w state \<Rightarrow> 'w state option" where
  "scheduleLoop a act s =
     (case (act, loops s a, heap s a) of
        (Start, Some Spawned, Some sc) \<Rightarrow>
          Some (s\<lparr>loops := (loops s)(a \<mapsto>
                  Running AtSelect (time_NewTimer (clock s) time_Nanosecond) (clock s))\<rparr>)
      | (SelectTimer, Some (Running AtSelect timer startTime), Some sc) \<Rightarrow>
          (case timerC timer of
             [] \<Rightarrow> None
           | x # xs \<Rightarrow>
               Some (s\<lparr>loops := (loops s)(a \<mapsto>
                       Running AtSend (timer\<lparr>timerC := xs\<rparr>) (clock s))\<rparr>))
      | (Send, Some (Running AtSend timer startTime), Some sc) \<Rightarrow>
          (case chan_send a (jobch (scheduler s)) of
             None \<Rightarrow> None
           | Some ch \<Rightarrow>
               Some (s\<lparr>scheduler := (scheduler s)\<lparr>jobch := ch\<rparr>,
                       loops := (loops s)(a \<mapsto> Running AtSelect timer startTime)\<rparr>))
      | (SelectConfirmation, Some (Running AtSelect timer startTime), Some sc) \<Rightarrow>
          (case chan_recv (confirmationChannel sc) of
             None \<Rightarrow> None
           | Some (c, ch) \<Rightarrow>
               (let passedTime = time_Since startTime (clock s);
                    wt = waitTime (interval sc) passedTime
                in Some (s\<lparr>heap := (heap s)(a \<mapsto> sc\<lparr>confirmationChannel := ch\<rparr>),
                           loops := (loops s)(a \<mapsto>
                             Running AtSelect (Timer_Reset (clock s) wt timer) startTime)\<rparr>)))
      | _ \<Rightarrow> None)"

text \<open>
  The runtime expires the running timer of the goroutine at \<open>a\<close> once the clock has
  reached its expiry (never before, possibly later).
\<close>

definition timer_expires :: "addr \<Rightarrow> 'w state \<Rightarrow> 'w state option" where
  "timer_expires a s =
     (case loops s a of
        Some (Running p timer startTime) \<Rightarrow>
          (case expiry timer of
             None \<Rightarrow> None
           | Some e \<Rightarrow>
               if e \<le> clock s
               then Some (s\<lparr>loops := (loops s)(a \<mapsto>
                             Running p (Timer_expire (clock s) timer) startTime)\<rparr>)
               else None)
      | _ \<Rightarrow> None)"

text \<open>
  One step of the system: the clock advances, the program calls \<open>AddSchedule\<close> (which
  never blocks), a timer expires, or one goroutine executes one atomic statement.
\<close>

datatype 'w action =
    Tick nat
  | Call_AddSchedule 'w Duration
  | Expire addr
  | Loop addr loop_action
  | Worker worker_action

fun step :: "'w action \<Rightarrow> 'w state \<Rightarrow> 'w state option" where
  "step (Tick d) s = Some (s\<lparr>clock := clock s + int d\<rparr>)"
| "step (Call_AddSchedule w ival) s = Some (AddSchedule w ival s)"
| "step (Expire a) s = timer_expires a s"
| "step (Loop a act) s = scheduleLoop a act s"
| "step (Worker act) s = workerLoop act s"

fun run :: "'w action list \<Rightarrow> 'w state \<Rightarrow> 'w state option" where
  "run [] s = Some s"
| "run (x # xs) s = (case step x s of None \<Rightarrow> None | Some s' \<Rightarrow> run xs s')"

subsection \<open>Dispatches in flight\<close>

text \<open>
  A dispatch of the Schedule at \<open>a\<close> is outstanding from the send of line 91 until the
  timing goroutine receives the confirmation (line 96): the address is buffered in
  \<open>jobch\<close>, or the consumer holds it (inside \<open>PerformWork\<close> or about to confirm), or the
  confirmation is buffered in the Schedule's \<open>confirmationChannel\<close>.
\<close>

definition held :: "addr \<Rightarrow> worker_pc \<Rightarrow> nat" where
  "held a w =
     (case w of
        AtRecv \<Rightarrow> 0
      | AtPerformWork b \<Rightarrow> if b = a then 1 else 0
      | AtConfirm b \<Rightarrow> if b = a then 1 else 0)"

definition unreceived :: "'w Schedule option \<Rightarrow> nat" where
  "unreceived x = (case x of None \<Rightarrow> 0 | Some sc \<Rightarrow> length (buf (confirmationChannel sc)))"

definition outstanding :: "addr \<Rightarrow> 'w state \<Rightarrow> nat" where
  "outstanding a s =
     count_list (buf (jobch (scheduler s))) a + held a (worker_at s) + unreceived (heap s a)"

text \<open>
  What can still lead to a dispatch on the side of the timing goroutine: the goroutine has
  not armed its first timer yet, its timer is running, the timer has expired and its value
  waits in \<open>C\<close>, or the goroutine is at the send of line 91.
\<close>

definition loop_tokens :: "loop_state option \<Rightarrow> nat" where
  "loop_tokens l =
     (case l of
        None \<Rightarrow> 0
      | Some Spawned \<Rightarrow> 1
      | Some (Running p t st) \<Rightarrow>
          (case expiry t of None \<Rightarrow> 0 | Some e \<Rightarrow> 1) + length (timerC t)
          + (case p of AtSelect \<Rightarrow> 0 | AtSend \<Rightarrow> 1))"

definition tokens :: "addr \<Rightarrow> 'w state \<Rightarrow> nat" where
  "tokens a s = loop_tokens (loops s a) + outstanding a s"

text \<open>The timer of the timing goroutine at \<open>a\<close> is running.\<close>

definition armed :: "addr \<Rightarrow> 'w state \<Rightarrow> bool" where
  "armed a s =
     (case loops s a of
        Some (Running p t st) \<Rightarrow> (case expiry t of None \<Rightarrow> False | Some e \<Rightarrow> True)
      | _ \<Rightarrow> False)"

definition tokens_ok :: "'w state \<Rightarrow> bool" where
  "tokens_ok s \<longleftrightarrow> (\<forall>a. tokens a s = (if a < brk s then 1 else 0))"

definition chans_ok :: "'w state \<Rightarrow> bool" where
  "chans_ok s \<longleftrightarrow>
     cap (jobch (scheduler s)) = 1 \<and>
     (\<forall>a sc. heap s a = Some sc \<longrightarrow> cap (confirmationChannel sc) = 1) \<and>
     dom (heap s) = {..<brk s} \<and> dom (loops s) = {..<brk s} \<and>
     schedules (scheduler s) = [0..<brk s] \<and>
     length (buf (jobch (scheduler s))) \<le> 1"

subsection \<open>What the consumer is observed to do\<close>

text \<open>
  \<open>replay\<close> follows the body of \<open>workerLoop\<close> along a list of observations: a
  \<open>Begin\<close> is possible only at the receive, the \<open>Finish\<close> of the same Schedule only
  inside \<open>PerformWork\<close>, the \<open>Ack\<close> of the same Schedule only after that.
\<close>

fun obs_time :: "obs \<Rightarrow> Time" where
  "obs_time (Begin a t) = t"
| "obs_time (Finish a t) = t"
| "obs_time (Ack a t) = t"

fun observe :: "worker_pc \<Rightarrow> obs \<Rightarrow> worker_pc option" where
  "observe AtRecv (Begin a t) = Some (AtPerformWork a)"
| "observe (AtPerformWork b) (Finish a t) = (if a = b then Some (AtConfirm a) else None)"
| "observe (AtConfirm b) (Ack a t) = (if a = b then Some AtRecv else None)"
| "observe p e = None"

fun replay :: "worker_pc \<Rightarrow> obs list \<Rightarrow> worker_pc option" where
  "replay p [] = Some p"
| "replay p (e # l) = (case observe p e of None \<Rightarrow> None | Some q \<Rightarrow> replay q l)"

fun inside :: "worker_pc \<Rightarrow> addr list" where
  "inside (AtPerformWork a) = [a]"
| "inside p = []"

text \<open>
  The Schedules whose \<open>PerformWork\<close> has begun and not finished after a list of
  observations, \<open>r\<close> being those before it.
\<close>

fun running :: "addr list \<Rightarrow> obs list \<Rightarrow> addr list" where
  "running r [] = r"
| "running r (Begin a t # l) = running (a # r) l"
| "running r (Finish a t # l) = running (remove1 a r) l"
| "running r (Ack a t # l) = running r l"

text \<open>
  The executions a list of observations records: the Schedule, the clock reading when
  \<open>PerformWork\<close> began and, if it has finished, the reading when it finished.  They do
  not overlap when each has finished before every later one begins.
\<close>

fun finish_of :: "addr \<Rightarrow> obs list \<Rightarrow> Time option" where
  "finish_of a [] = None"
| "finish_of a (Finish b t # l) = (if a = b then Some t else finish_of a l)"
| "finish_of a (e # l) = finish_of a l"

fun executions :: "obs list \<Rightarrow> (addr \<times> Time \<times> Time option) list" where
  "executions [] = []"
| "executions (Begin a t # l) = (a, t, finish_of a l) # executions l"
| "executions (e # l) = executions l"

definition ends_before :: "Time option \<Rightarrow> addr \<times> Time \<times> Time option \<Rightarrow> bool" where
  "ends_before fo x = (case fo of None \<Rightarrow> False | Some e \<Rightarrow> e \<le> fst (snd x))"

fun non_overlapping :: "(addr \<times> Time \<times> Time option) list \<Rightarrow> bool" where
  "non_overlapping [] = True"
| "non_overlapping (x # xs) = (list_all (ends_before (snd (snd x))) xs \<and> non_overlapping xs)"

definition log_ok :: "'w state \<Rightarrow> bool" where
  "log_ok s \<longleftrightarrow>
     replay AtRecv (observed s) = Some (worker_at s) \<and>
     sorted (map obs_time (observed s)) \<and>
     (\<forall>e \<in> set (observed s). obs_time e \<le> clock s)"

subsection \<open>Instrumented runs\<close>

text \<open>
  Runs of one Schedule at address 0 up to the moment its confirmation is buffered: the job
  takes as long as the interval, longer than the interval, and the interval is negative.
\<close>

definition late_job :: "unit action list" where
  "late_job = [Call_AddSchedule () 20, Loop 0 Start, Tick 1, Expire 0, Loop 0 SelectTimer,
     Loop 0 Send, Worker Recv, Tick 20, Worker Return, Worker Confirm,
     Loop 0 SelectConfirmation]"

definition overrun :: "unit action list" where
  "overrun = [Call_AddSchedule () 10, Loop 0 Start, Tick 1, Expire 0, Loop 0 SelectTimer,
     Loop 0 Send, Worker Recv, Tick 15, Worker Return, Worker Confirm]"

definition eager :: "unit action list" where
  "eager = [Call_AddSchedule () (- 5), Loop 0 Start, Tick 1, Expire 0, Loop 0 SelectTimer,
     Loop 0 Send, Worker Recv, Tick 3, Worker Return, Worker Confirm]"

text \<open>
  Two Schedules: both timers have expired, the first dispatch has been received and the
  consumer is inside \<open>PerformWork\<close> of Schedule 0 while Schedule 1 is at its send; then
  Schedule 1 sends, the first job returns and is confirmed and the second job begins.
\<close>

definition busy_consumer :: "unit action list" where
  "busy_consumer = [Call_AddSchedule () 20, Call_AddSchedule () 30, Loop 0 Start, Loop 1 Start,
     Tick 1, Expire 0, Expire 1, Loop 0 SelectTimer, Loop 1 SelectTimer, Loop 0 Send,
     Worker Recv]"

definition two_jobs :: "unit action list" where
  "two_jobs = busy_consumer @ [Loop 1 Send, Tick 5, Worker Return, Worker Confirm,
     Worker Recv, Tick 3]"

text \<open>
  Schedule 1 is registered while the consumer is inside \<open>PerformWork\<close> of Schedule 0,
  up to the send of Schedule 1; and what happens between the timer receive of a Schedule
  and its confirmation when the send is seven nanoseconds late and the job takes five.
\<close>

definition registered_while_busy :: "unit action list" where
  "registered_while_busy = [Call_AddSchedule () 20, Loop 0 Start, Tick 1, Expire 0,
     Loop 0 SelectTimer, Loop 0 Send, Worker Recv,
     Call_AddSchedule () 30, Loop 1 Start, Tick 1, Expire 1, Loop 1 SelectTimer, Loop 1 Send]"

definition delayed_dispatch :: "unit action list" where
  "delayed_dispatch = [Tick 7, Loop 0 Send, Worker Recv, Tick 5, Worker Return, Worker Confirm]"

text \<open>Registrations of named workers, and an interval of one hour.\<close>

definition two_registered :: "string action list" where
  "two_registered = [Call_AddSchedule ''backup'' 20, Loop 0 Start, Call_AddSchedule ''report'' 30]"

definition hourly :: Duration where
  "hourly = 3600000000000"

subsection \<open>A Schedule that runs without delay\<close>

text \<open>
  The run the documentation of \<open>AddSchedule\<close> describes: one Schedule, whose timer
  expires exactly at its expiry, whose dispatch is received at once by an idle consumer and
  whose job takes a given number of nanoseconds.  \<open>boot\<close> registers the Schedule and lets
  its first timer expire; \<open>job_cycle\<close> is one run of the job up to the reset of the
  timer; \<open>until_expiry\<close> is the wait the timer was reset with; \<open>undelayed\<close> runs the
  job once per duration and returns the waits.  \<open>fired\<close> holds when the timer of the
  Schedule has just expired and nothing else is pending.
\<close>

definition boot :: "'w \<Rightarrow> Duration \<Rightarrow> 'w action list" where
  "boot w ival = [Call_AddSchedule w ival, Loop 0 Start, Tick 1, Expire 0]"

definition job_cycle :: "addr \<Rightarrow> nat \<Rightarrow> 'w action list" where
  "job_cycle a d = [Loop a SelectTimer, Loop a Send, Worker Recv, Tick d, Worker Return,
     Worker Confirm, Loop a SelectConfirmation]"

definition until_expiry :: "addr \<Rightarrow> 'w state \<Rightarrow> nat" where
  "until_expiry a s =
     (case loops s a of
        Some (Running p t st) \<Rightarrow> (case expiry t of None \<Rightarrow> 0 | Some e \<Rightarrow> nat (e - clock s))
      | _ \<Rightarrow> 0)"

fun undelayed :: "addr \<Rightarrow> nat list \<Rightarrow> 'w state \<Rightarrow> (nat list \<times> 'w state) option" where
  "undelayed a [] s = Some ([], s)"
| "undelayed a (d # ds) s =
     (case run (job_cycle a d) s of
        None \<Rightarrow> None
      | Some s1 \<Rightarrow>
          (case run [Tick (until_expiry a s1), Expire a] s1 of
             None \<Rightarrow> None
           | Some s2 \<Rightarrow>
               (case undelayed a ds s2 of
                  None \<Rightarrow> None
                | Some (ws, s') \<Rightarrow> Some (until_expiry a s1 # ws, s'))))"

definition fired :: "addr \<Rightarrow> 'w state \<Rightarrow> bool" where
  "fired a s \<longleftrightarrow>
     worker_at s = AtRecv \<and> jobch (scheduler s) = \<lparr>cap = 1, buf = []\<rparr> \<and>
     (case (loops s a, heap s a) of
        (Some (Running AtSelect t st), Some sc) \<Rightarrow>
          expiry t = None \<and> timerC t = [clock s] \<and>
          confirmationChannel sc = \<lparr>cap = 1, buf = []\<rparr>
      | _ \<Rightarrow> False)"

text \<open>
  The clock readings at which \<open>PerformWork\<close> was observed to begin, and the readings at
  which the runs of a job start when each run starts after the duration of the previous
  one and the wait \<open>waitTime\<close> computes from it.
\<close>

fun begins :: "obs list \<Rightarrow> Time list" where
  "begins [] = []"
| "begins (Begin a t # l) = t # begins l"
| "begins (e # l) = begins l"

fun starts_from :: "Time \<Rightarrow> Duration \<Rightarrow> nat list \<Rightarrow> Time list" where
  "starts_from t ival [] = [t]"
| "starts_from t ival (d # ds) =
     t # starts_from (t + int d + sint (waitTime ival (word_of_nat d))) ival ds"

section \<open>Invariants of the reachable states\<close>

lemmas sem_simps = New_def AddSchedule_def scheduleLoop_def workerLoop_def timer_expires_def
  chan_send_def chan_recv_def make_chan_def time_NewTimer_def Timer_Reset_def Timer_expire_def
  time_when_def time_Since_def waitTime_def time_Nanosecond_def Let_def

lemmas tok_defs = tokens_def outstanding_def loop_tokens_def held_def unreceived_def

lemma chans_ok_New: "chans_ok (New t0)"
  by (simp add: chans_ok_def New_def make_chan_def)

lemma tokens_ok_New: "tokens_ok (New t0)"
  by (simp add: tokens_ok_def New_def make_chan_def tok_defs)

lemma Recv_SomeD:
  "workerLoop Recv s = Some s' \<Longrightarrow>
   \<exists>a rest. worker_at s = AtRecv \<and> buf (jobch (scheduler s)) = a # rest \<and>
     s' = s\<lparr>scheduler := (scheduler s)\<lparr>jobch := (jobch (scheduler s))\<lparr>buf := rest\<rparr>\<rparr>,
            worker_at := AtPerformWork a, observed := observed s @ [Begin a (clock s)]\<rparr>"
  by (auto simp: workerLoop_def chan_recv_def split: worker_pc.splits list.splits)

lemma Return_SomeD:
  "workerLoop Return s = Some s' \<Longrightarrow>
   \<exists>a. worker_at s = AtPerformWork a \<and>
     s' = s\<lparr>worker_at := AtConfirm a, observed := observed s @ [Finish a (clock s)]\<rparr>"
  by (auto simp: workerLoop_def split: worker_pc.splits)

lemma Confirm_SomeD:
  "workerLoop Confirm s = Some s' \<Longrightarrow>
   \<exists>a sc. worker_at s = AtConfirm a \<and> heap s a = Some sc \<and>
     length (buf (confirmationChannel sc)) < cap (confirmationChannel sc) \<and>
     s' = s\<lparr>heap := (heap s)(a \<mapsto> sc\<lparr>confirmationChannel :=
                 (confirmationChannel sc)\<lparr>buf := buf (confirmationChannel sc) @ [True]\<rparr>\<rparr>),
            worker_at := AtRecv, observed := observed s @ [Ack a (clock s)]\<rparr>"
  by (auto simp: workerLoop_def chan_send_def split: worker_pc.splits option.splits if_splits)

lemma Start_SomeD:
  "scheduleLoop a Start s = Some s' \<Longrightarrow>
   loops s a = Some Spawned \<and> heap s a \<noteq> None \<and>
   s' = s\<lparr>loops := (loops s)(a \<mapsto>
          Running AtSelect (time_NewTimer (clock s) time_Nanosecond) (clock s))\<rparr>"
  by (auto simp: scheduleLoop_def split: option.splits loop_state.splits loop_pc.splits)

lemma SelectTimer_SomeD:
  "scheduleLoop a SelectTimer s = Some s' \<Longrightarrow>
   \<exists>timer startTime x xs. loops s a = Some (Running AtSelect timer startTime) \<and>
     heap s a \<noteq> None \<and> timerC timer = x # xs \<and>
     s' = s\<lparr>loops := (loops s)(a \<mapsto> Running AtSend (timer\<lparr>timerC := xs\<rparr>) (clock s))\<rparr>"
  by (auto simp: scheduleLoop_def split: option.splits loop_state.splits loop_pc.splits list.splits)

lemma Send_SomeD:
  "scheduleLoop a Send s = Some s' \<Longrightarrow>
   \<exists>timer startTime. loops s a = Some (Running AtSend timer startTime) \<and>
     heap s a \<noteq> None \<and>
     length (buf (jobch (scheduler s))) < cap (jobch (scheduler s)) \<and>
     s' = s\<lparr>scheduler := (scheduler s)\<lparr>jobch :=
                 (jobch (scheduler s))\<lparr>buf := buf (jobch (scheduler s)) @ [a]\<rparr>\<rparr>,
            loops := (loops s)(a \<mapsto> Running AtSelect timer startTime)\<rparr>"
  by (auto simp: scheduleLoop_def chan_send_def
      split: option.splits loop_state.splits loop_pc.splits if_splits)

lemma SelectConfirmation_SomeD:
  "scheduleLoop a SelectConfirmation s = Some s' \<Longrightarrow>
   \<exists>timer startTime sc c cs. loops s a = Some (Running AtSelect timer startTime) \<and>
     heap s a = Some sc \<and> buf (confirmationChannel sc) = c # cs \<and>
     s' = s\<lparr>heap := (heap s)(a \<mapsto> sc\<lparr>confirmationChannel :=
                 (confirmationChannel sc)\<lparr>buf := cs\<rparr>\<rparr>),
            loops := (loops s)(a \<mapsto> Running AtSelect
              (Timer_Reset (clock s)
                 (waitTime (interval sc) (time_Since startTime (clock s))) timer) startTime)\<rparr>"
  by (auto simp: scheduleLoop_def chan_recv_def Let_def
      split: option.splits loop_state.splits loop_pc.splits list.splits)

lemma Expire_SomeD:
  "timer_expires a s = Some s' \<Longrightarrow>
   \<exists>p timer startTime e. loops s a = Some (Running p timer startTime) \<and>
     expiry timer = Some e \<and> e \<le> clock s \<and>
     s' = s\<lparr>loops := (loops s)(a \<mapsto> Running p (Timer_expire (clock s) timer) startTime)\<rparr>"
  by (auto simp: timer_expires_def split: option.splits loop_state.splits if_splits)


lemma chans_ok_upd:
  assumes "chans_ok s" "brk s' = brk s" "cap (jobch (scheduler s')) = cap (jobch (scheduler s))"
    "dom (heap s') = dom (heap s)" "dom (loops s') = dom (loops s)"
    "\<And>a sc'. heap s' a = Some sc' \<Longrightarrow>
       \<exists>sc. heap s a = Some sc \<and> cap (confirmationChannel sc') = cap (confirmationChannel sc)"
    "schedules (scheduler s') = schedules (scheduler s)"
    "length (buf (jobch (scheduler s'))) \<le> 1"
  shows "chans_ok s'"
proof -
  have "cap (confirmationChannel sc') = 1" if "heap s' a = Some sc'" for a sc'
  proof -
    from assms(6) [OF that] obtain sc where "heap s a = Some sc"
      "cap (confirmationChannel sc') = cap (confirmationChannel sc)" by blast
    with assms(1) show ?thesis by (simp add: chans_ok_def)
  qed
  with assms(1-5,7,8) show ?thesis by (simp add: chans_ok_def)
qed

lemma chans_ok_jobch: "chans_ok s \<Longrightarrow> length (buf (jobch (scheduler s))) \<le> 1"
  by (simp add: chans_ok_def)

lemma chans_ok_cap: "chans_ok s \<Longrightarrow> cap (jobch (scheduler s)) = 1"
  by (simp add: chans_ok_def)

lemma chans_ok_Worker:
  assumes "chans_ok s" "workerLoop act s = Some s'"
  shows "chans_ok s'"
proof (cases act)
  case Recv
  with assms(2) show ?thesis
    using chans_ok_jobch [OF assms(1)]
    by - (rule chans_ok_upd [OF assms(1)], auto dest!: Recv_SomeD)
next
  case Return
  with assms(2) show ?thesis
    using chans_ok_jobch [OF assms(1)]
    by - (rule chans_ok_upd [OF assms(1)], auto dest!: Return_SomeD)
next
  case Confirm
  with assms(2) show ?thesis
    using chans_ok_jobch [OF assms(1)]
    by - (rule chans_ok_upd [OF assms(1)], auto dest!: Confirm_SomeD split: if_splits)
qed

lemma chans_ok_Loop:
  assumes "chans_ok s" "scheduleLoop a act s = Some s'"
  shows "chans_ok s'"
proof (cases act)
  case Start
  with assms(2) show ?thesis
    using chans_ok_jobch [OF assms(1)]
    by - (rule chans_ok_upd [OF assms(1)], auto dest!: Start_SomeD split: if_splits)
next
  case SelectTimer
  with assms(2) show ?thesis
    using chans_ok_jobch [OF assms(1)]
    by - (rule chans_ok_upd [OF assms(1)], auto dest!: SelectTimer_SomeD split: if_splits)
next
  case Send
  with assms(2) show ?thesis
    using chans_ok_cap [OF assms(1)]
    by - (rule chans_ok_upd [OF assms(1)], auto dest!: Send_SomeD split: if_splits)
next
  case SelectConfirmation
  with assms(2) show ?thesis
    using chans_ok_jobch [OF assms(1)]
    by - (rule chans_ok_upd [OF assms(1)], auto dest!: SelectConfirmation_SomeD split: if_splits)
qed

lemma chans_ok_Expire:
  assumes "chans_ok s" "timer_expires a s = Some s'"
  shows "chans_ok s'"
  using assms(2) chans_ok_jobch [OF assms(1)]
  by - (rule chans_ok_upd [OF assms(1)], auto dest!: Expire_SomeD split: if_splits)

lemma chans_ok_AddSchedule: "chans_ok s \<Longrightarrow> chans_ok (AddSchedule w ival s)"
  by (simp add: chans_ok_def AddSchedule_def Let_def make_chan_def lessThan_Suc)

lemma chans_ok_clock: "chans_ok (s\<lparr>clock := c\<rparr>) = chans_ok s"
  by (simp add: chans_ok_def)

lemma chans_ok_step: "chans_ok s \<Longrightarrow> step x s = Some s' \<Longrightarrow> chans_ok s'"
proof (cases x)
  case (Tick d)
  assume "chans_ok s" "step x s = Some s'"
  with Tick show ?thesis by (auto simp: chans_ok_clock)
qed (auto intro: chans_ok_AddSchedule chans_ok_Expire chans_ok_Loop chans_ok_Worker)

lemma tokens_le_1: "tokens_ok s \<Longrightarrow> tokens a s \<le> 1"
  by (simp add: tokens_ok_def)

lemma tokens_okI:
  "tokens_ok s \<Longrightarrow> brk s' = brk s \<Longrightarrow> (\<And>b. tokens b s' = tokens b s) \<Longrightarrow> tokens_ok s'"
  by (simp add: tokens_ok_def)

lemma tokens_ok_Worker:
  assumes "tokens_ok s" "workerLoop act s = Some s'"
  shows "tokens_ok s'"
proof (cases act)
  case Recv
  with assms(2) obtain a rest where *: "worker_at s = AtRecv" "buf (jobch (scheduler s)) = a # rest"
    "s' = s\<lparr>scheduler := (scheduler s)\<lparr>jobch := (jobch (scheduler s))\<lparr>buf := rest\<rparr>\<rparr>,
            worker_at := AtPerformWork a, observed := observed s @ [Begin a (clock s)]\<rparr>"
    using Recv_SomeD by blast
  show ?thesis
    by (rule tokens_okI [OF assms(1)]) (auto simp: * tok_defs)
next
  case Return
  with assms(2) obtain a where *: "worker_at s = AtPerformWork a"
     "s' = s\<lparr>worker_at := AtConfirm a, observed := observed s @ [Finish a (clock s)]\<rparr>"
    using Return_SomeD by blast
  show ?thesis
    by (rule tokens_okI [OF assms(1)]) (auto simp: * tok_defs)
next
  case Confirm
  with assms(2) obtain a sc where *: "worker_at s = AtConfirm a" "heap s a = Some sc"
     "s' = s\<lparr>heap := (heap s)(a \<mapsto> sc\<lparr>confirmationChannel :=
                 (confirmationChannel sc)\<lparr>buf := buf (confirmationChannel sc) @ [True]\<rparr>\<rparr>),
            worker_at := AtRecv, observed := observed s @ [Ack a (clock s)]\<rparr>"
    using Confirm_SomeD by blast
  show ?thesis
    by (rule tokens_okI [OF assms(1)]) (auto simp: * tok_defs)
qed

lemma tokens_ok_Loop:
  assumes "tokens_ok s" "scheduleLoop a act s = Some s'"
  shows "tokens_ok s'"
proof (cases act)
  case Start
  with assms(2) have *: "loops s a = Some Spawned"
   "s' = s\<lparr>loops := (loops s)(a \<mapsto>
          Running AtSelect (time_NewTimer (clock s) time_Nanosecond) (clock s))\<rparr>"
    using Start_SomeD by blast+
  show ?thesis
    by (rule tokens_okI [OF assms(1)]) (auto simp: * tok_defs time_NewTimer_def)
next
  case SelectTimer
  with assms(2) obtain timer startTime x xs where *:
    "loops s a = Some (Running AtSelect timer startTime)" "timerC timer = x # xs"
    "s' = s\<lparr>loops := (loops s)(a \<mapsto> Running AtSend (timer\<lparr>timerC := xs\<rparr>) (clock s))\<rparr>"
    using SelectTimer_SomeD by blast
  show ?thesis
    by (rule tokens_okI [OF assms(1)]) (auto simp: * tok_defs)
next
  case Send
  with assms(2) obtain timer startTime where *:
    "loops s a = Some (Running AtSend timer startTime)"
    "s' = s\<lparr>scheduler := (scheduler s)\<lparr>jobch :=
                 (jobch (scheduler s))\<lparr>buf := buf (jobch (scheduler s)) @ [a]\<rparr>\<rparr>,
            loops := (loops s)(a \<mapsto> Running AtSelect timer startTime)\<rparr>"
    using Send_SomeD by blast
  show ?thesis
    by (rule tokens_okI [OF assms(1)]) (auto simp: * tok_defs)
next
  case SelectConfirmation
  with assms(2) obtain timer startTime sc c cs where *:
    "loops s a = Some (Running AtSelect timer startTime)"
     "heap s a = Some sc" "buf (confirmationChannel sc) = c # cs"
     "s' = s\<lparr>heap := (heap s)(a \<mapsto> sc\<lparr>confirmationChannel :=
                 (confirmationChannel sc)\<lparr>buf := cs\<rparr>\<rparr>),
            loops := (loops s)(a \<mapsto> Running AtSelect
              (Timer_Reset (clock s)
                 (waitTime (interval sc) (time_Since startTime (clock s))) timer) startTime)\<rparr>"
    using SelectConfirmation_SomeD by blast
  have "tokens a s \<le> 1" using assms(1) by (rule tokens_le_1)
  then have e: "expiry timer = None" using *(1-3) by (simp add: tok_defs split: option.splits)
  show ?thesis
    by (rule tokens_okI [OF assms(1)]) (auto simp: * e tok_defs Timer_Reset_def)
qed

lemma tokens_ok_Expire:
  assumes "tokens_ok s" "timer_expires a s = Some s'"
  shows "tokens_ok s'"
proof -
  from assms(2) obtain p timer startTime e where *:
    "loops s a = Some (Running p timer startTime)" "expiry timer = Some e"
    "s' = s\<lparr>loops := (loops s)(a \<mapsto> Running p (Timer_expire (clock s) timer) startTime)\<rparr>"
    using Expire_SomeD by blast
  have "tokens a s \<le> 1" using assms(1) by (rule tokens_le_1)
  then have e: "timerC timer = []" using *(1-2) by (simp add: tok_defs)
  show ?thesis
    by (rule tokens_okI [OF assms(1)]) (auto simp: * e tok_defs Timer_expire_def)
qed

lemma tokens_ok_AddSchedule:
  assumes "tokens_ok s"
  shows "tokens_ok (AddSchedule w ival s)"
proof -
  have z: "tokens (brk s) s = 0" using assms by (simp add: tokens_ok_def)
  have "tokens b (AddSchedule w ival s) = (if b = brk s then 1 else tokens b s)" for b
    using z by (auto simp: AddSchedule_def Let_def tok_defs make_chan_def)
  with assms show ?thesis
    by (auto simp: tokens_ok_def AddSchedule_def Let_def)
qed

lemma tokens_ok_step: "tokens_ok s \<Longrightarrow> step x s = Some s' \<Longrightarrow> tokens_ok s'"
proof (cases x)
  case (Tick d)
  assume "tokens_ok s" "step x s = Some s'"
  with Tick show ?thesis by (auto intro: tokens_okI simp: tok_defs)
next
  case (Call_AddSchedule w i)
  assume "tokens_ok s" "step x s = Some s'"
  with Call_AddSchedule show ?thesis by (auto intro: tokens_ok_AddSchedule)
next
  case (Expire a)
  assume "tokens_ok s" "step x s = Some s'"
  with Expire show ?thesis by (auto intro: tokens_ok_Expire)
next
  case (Loop a act)
  assume "tokens_ok s" "step x s = Some s'"
  with Loop show ?thesis by (auto intro: tokens_ok_Loop)
next
  case (Worker act)
  assume "tokens_ok s" "step x s = Some s'"
  with Worker show ?thesis by (auto intro: tokens_ok_Worker)
qed

lemma tokens_ok_run: "tokens_ok s \<Longrightarrow> run xs s = Some s' \<Longrightarrow> tokens_ok s'"
proof (induction xs arbitrary: s)
  case Nil
  then show ?case by simp
next
  case (Cons x xs)
  then show ?case by (auto split: option.splits dest: tokens_ok_step)
qed


lemma chans_ok_run: "chans_ok s \<Longrightarrow> run xs s = Some s' \<Longrightarrow> chans_ok s'"
proof (induction xs arbitrary: s)
  case Nil
  then show ?case by simp
next
  case (Cons x xs)
  then show ?case by (auto split: option.splits dest: chans_ok_step)
qed

lemma reachable_tokens_ok: "run xs (New t0) = Some s \<Longrightarrow> tokens_ok s"
  using tokens_ok_New by (rule tokens_ok_run)

lemma reachable_chans_ok: "run xs (New t0) = Some s \<Longrightarrow> chans_ok s"
  using chans_ok_New by (rule chans_ok_run)

lemma replay_snoc:
  "replay p (l @ [e]) = (case replay p l of None \<Rightarrow> None | Some q \<Rightarrow> observe q e)"
  by (induction l arbitrary: p) (auto split: option.splits)

lemma log_ok_New: "log_ok (New t0)"
  by (simp add: log_ok_def New_def)

lemma log_ok_snoc:
  assumes "log_ok s" and "observe (worker_at s) e = Some q" and "obs_time e = clock s"
  shows "log_ok (s\<lparr>worker_at := q, observed := observed s @ [e]\<rparr>)"
  using assms by (auto simp: log_ok_def replay_snoc sorted_append)

lemma log_ok_same:
  assumes "log_ok s" and "worker_at s' = worker_at s" and "observed s' = observed s"
    and "clock s \<le> clock s'"
  shows "log_ok s'"
  using assms by (fastforce simp: log_ok_def)

lemma log_ok_Worker:
  assumes "log_ok s" and "workerLoop act s = Some s'"
  shows "log_ok s'"
proof (cases act)
  case Recv
  with assms(2) obtain a rest where *: "worker_at s = AtRecv"
    "s' = s\<lparr>scheduler := (scheduler s)\<lparr>jobch := (jobch (scheduler s))\<lparr>buf := rest\<rparr>\<rparr>,
            worker_at := AtPerformWork a, observed := observed s @ [Begin a (clock s)]\<rparr>"
    using Recv_SomeD by blast
  have "log_ok (s\<lparr>worker_at := AtPerformWork a, observed := observed s @ [Begin a (clock s)]\<rparr>)"
    using assms(1) by (rule log_ok_snoc) (simp_all add: *)
  then show ?thesis by (simp add: * log_ok_def)
next
  case Return
  with assms(2) obtain a where *: "worker_at s = AtPerformWork a"
     "s' = s\<lparr>worker_at := AtConfirm a, observed := observed s @ [Finish a (clock s)]\<rparr>"
    using Return_SomeD by blast
  show ?thesis
    unfolding *(2) using assms(1) by (rule log_ok_snoc) (simp_all add: *)
next
  case Confirm
  with assms(2) obtain a sc where *: "worker_at s = AtConfirm a"
     "s' = s\<lparr>heap := (heap s)(a \<mapsto> sc\<lparr>confirmationChannel :=
                 (confirmationChannel sc)\<lparr>buf := buf (confirmationChannel sc) @ [True]\<rparr>\<rparr>),
            worker_at := AtRecv, observed := observed s @ [Ack a (clock s)]\<rparr>"
    using Confirm_SomeD by blast
  have "log_ok (s\<lparr>worker_at := AtRecv, observed := observed s @ [Ack a (clock s)]\<rparr>)"
    using assms(1) by (rule log_ok_snoc) (simp_all add: *)
  then show ?thesis by (simp add: * log_ok_def)
qed

lemma log_ok_step: "log_ok s \<Longrightarrow> step x s = Some s' \<Longrightarrow> log_ok s'"
proof (cases x)
  case (Tick d)
  assume "log_ok s" "step x s = Some s'"
  with Tick show ?thesis by (auto intro: log_ok_same)
next
  case (Call_AddSchedule w i)
  assume "log_ok s" "step x s = Some s'"
  with Call_AddSchedule show ?thesis
    by (auto intro!: log_ok_same [of s] simp: AddSchedule_def Let_def)
next
  case (Expire a)
  assume "log_ok s" "step x s = Some s'"
  with Expire show ?thesis
    by (auto intro!: log_ok_same [of s] dest!: Expire_SomeD)
next
  case (Loop a act)
  assume "log_ok s" "step x s = Some s'"
  with Loop show ?thesis
    by (cases act)
      (auto intro!: log_ok_same [of s]
        dest!: Start_SomeD SelectTimer_SomeD Send_SomeD SelectConfirmation_SomeD)
next
  case (Worker act)
  assume "log_ok s" "step x s = Some s'"
  with Worker show ?thesis by (auto intro: log_ok_Worker)
qed

lemma log_ok_run: "log_ok s \<Longrightarrow> run xs s = Some s' \<Longrightarrow> log_ok s'"
proof (induction xs arbitrary: s)
  case Nil
  then show ?case by simp
next
  case (Cons x xs)
  then show ?case by (auto split: option.splits dest: log_ok_step)
qed

lemma reachable_log_ok: "run xs (New t0) = Some s \<Longrightarrow> log_ok s"
  using log_ok_New by (rule log_ok_run)

section \<open>The computed wait\<close>

lemma sint_range64:
  fixes x :: Duration
  shows "- (2 ^ 63) \<le> sint x" and "sint x < 2 ^ 63"
  using sint_ge [of x] sint_lt [of x] by simp_all

lemma sint_sub_exact:
  fixes x y :: Duration
  assumes "- (2 ^ 63) \<le> sint x - sint y" and "sint x - sint y < 2 ^ 63"
  shows "sint (x - y) = sint x - sint y"
  using assms by (simp add: sint_word_ariths signed_take_bit_int_eq_self)

lemma sint_Nanosecond: "sint time_Nanosecond = 1"
  by (simp add: time_Nanosecond_def)

lemma waitTime_nonneg: "0 \<le> sint (waitTime ival passedTime)"
  by (simp add: waitTime_def Let_def sint_Nanosecond)

lemma waitTime_negative: "sint (ival - passedTime) < 0 \<Longrightarrow> waitTime ival passedTime = time_Nanosecond"
  by (simp add: waitTime_def)

lemma waitTime_kept: "0 \<le> sint (ival - passedTime) \<Longrightarrow> waitTime ival passedTime = ival - passedTime"
  by (simp add: waitTime_def)

lemma sint_Since_exact:
  assumes "- (2 ^ 63) \<le> now - t" and "now - t < 2 ^ 63"
  shows "sint (time_Since t now) = now - t"
proof -
  have "sint (word_of_int (now - t) :: Duration) = signed_take_bit 63 (now - t)"
    by (simp only: sint_sbintrunc') simp
  also have "\<dots> = now - t"
    using assms by (simp add: signed_take_bit_int_eq_self)
  finally show ?thesis
    using assms by (simp add: time_Since_def del: of_int_diff)
qed

lemma sint_Since_pos:
  assumes "t < now"
  shows "0 < sint (time_Since t now)"
proof (cases "now - t < 2 ^ 63")
  case True
  with assms show ?thesis by (simp add: sint_Since_exact)
next
  case False
  then show ?thesis by (simp add: time_Since_def sint_sbintrunc')
qed

lemma waitTime_nonneg_interval:
  assumes "0 \<le> sint ival" and "0 \<le> sint passedTime"
  shows "sint (waitTime ival passedTime) =
    (if sint ival < sint passedTime then 1 else sint ival - sint passedTime)"
proof -
  have "- (2 ^ 63) \<le> sint ival - sint passedTime" "sint ival - sint passedTime < 2 ^ 63"
    using assms sint_range64 [of ival] sint_range64 [of passedTime] by linarith+
  then have "sint (ival - passedTime) = sint ival - sint passedTime"
    by (rule sint_sub_exact)
  then show ?thesis by (simp add: waitTime_def Let_def sint_Nanosecond)
qed

lemma waitTime_nonpos_interval:
  assumes "sint ival \<le> 0" and "0 < sint passedTime"
    and "- (2 ^ 63) \<le> sint ival - sint passedTime"
  shows "waitTime ival passedTime = time_Nanosecond"
proof -
  have "sint ival - sint passedTime < 2 ^ 63"
    using assms(1,2) sint_range64 [of ival] by linarith
  with assms(3) have "sint (ival - passedTime) = sint ival - sint passedTime"
    by (rule sint_sub_exact)
  with assms(1,2) show ?thesis by (simp add: waitTime_negative)
qed

lemma sint_of_int64:
  assumes "- (2 ^ 63) \<le> k" and "k < 2 ^ 63"
  shows "sint (word_of_int k :: Duration) = k"
proof -
  have "sint (word_of_int k :: Duration) = signed_take_bit 63 k"
    by (simp only: sint_sbintrunc') simp
  also have "\<dots> = k"
    using assms by (simp add: signed_take_bit_int_eq_self)
  finally show ?thesis .
qed

lemma time_when_exact:
  assumes "0 \<le> now" and "0 \<le> sint d" and "now + sint d < 2 ^ 63"
  shows "time_when now d = now + sint d"
proof (cases "sint d = 0")
  case True
  then show ?thesis by (simp add: time_when_def)
next
  case False
  with assms(2) have p: "0 < sint d" by simp
  have n: "sint (word_of_int now :: Duration) = now"
    using assms p by (intro sint_of_int64) auto
  have "sint (word_of_int now + d) = signed_take_bit 63 (sint (word_of_int now :: Duration) + sint d)"
    by (simp add: sint_word_ariths)
  also have "\<dots> = now + sint d"
    unfolding n using assms p by (intro signed_take_bit_int_eq_self) auto
  finally have "sint (word_of_int now + d) = now + sint d" .
  with assms(1) p show ?thesis by (simp add: time_when_def Let_def)
qed

lemma time_when_Nanosecond:
  assumes "0 \<le> now" and "now < 2 ^ 63 - 1"
  shows "time_when now time_Nanosecond = now + 1"
  using time_when_exact [of now time_Nanosecond] assms by (simp add: sint_Nanosecond)

text \<open>
  Claim C2, as stated, fails: with interval 20 and a job that takes 20 ns the computed wait is
  zero, it is not replaced, and the timer is reset to expire at the current clock reading
  (a duration of zero).
\<close>

theorem zero_wait_not_clamped:
  "sint ((20 :: Duration) - 20) \<le> 0 \<and> waitTime 20 20 = 0 \<and> waitTime 20 20 \<noteq> time_Nanosecond \<and>
   map_option clock (run late_job (New 0)) = Some 21 \<and>
   map_option (\<lambda>s. loops s 0) (run late_job (New 0)) =
     Some (Some (Running AtSelect \<lparr>expiry = Some 21, timerC = []\<rparr> 1))"
  by (simp add: late_job_def sem_simps)

text \<open>
  Claim C2, amended: when the timing goroutine receives the confirmation, the timer is reset
  with \<open>waitTime\<close> of the interval and the elapsed time.  A negative computed wait is
  replaced by one nanosecond, any other computed wait (zero included) is kept, and the
  duration the timer is reset with is never negative.
\<close>

theorem rearm_clamps_negative_wait:
  assumes "scheduleLoop a SelectConfirmation s = Some s'"
    and "loops s a = Some (Running p timer startTime)" and "heap s a = Some sc"
  shows "\<exists>d. loops s' a = Some (Running AtSelect (Timer_Reset (clock s) d timer) startTime) \<and>
     d = waitTime (interval sc) (time_Since startTime (clock s)) \<and> 0 \<le> sint d \<and>
     (sint (interval sc - time_Since startTime (clock s)) < 0 \<longrightarrow> d = time_Nanosecond) \<and>
     (0 \<le> sint (interval sc - time_Since startTime (clock s)) \<longrightarrow>
        d = interval sc - time_Since startTime (clock s))"
  using assms(1) SelectConfirmation_SomeD [OF assms(1)]
  by (auto simp: assms(2,3) waitTime_nonneg waitTime_negative waitTime_kept)


theorem rearm_clamps_negative_wait_witness:
  "run overrun (New 0) \<noteq> None \<and>
   scheduleLoop 0 SelectConfirmation (the (run overrun (New 0))) \<noteq> None \<and>
   sint (10 - time_Since 1 16) < 0 \<and>
   loops (the (scheduleLoop 0 SelectConfirmation (the (run overrun (New 0))))) 0 =
     Some (Running AtSelect \<lparr>expiry = Some 17, timerC = []\<rparr> 1)"
proof -
  let ?s = "the (run overrun (New 0)) :: unit state"
  have r: "run overrun (New 0) \<noteq> (None :: unit state option)"
    by (simp add: overrun_def sem_simps)
  have l: "loops ?s 0 = Some (Running AtSelect \<lparr>expiry = None, timerC = []\<rparr> 1)"
    by (simp add: overrun_def sem_simps)
  have h: "heap ?s 0 = Some \<lparr>interval = 10, worker = (),
      confirmationChannel = \<lparr>cap = 1, buf = [True]\<rparr>\<rparr>"
    by (simp add: overrun_def sem_simps)
  have c: "clock ?s = 16"
    by (simp add: overrun_def sem_simps)
  have "scheduleLoop 0 SelectConfirmation ?s \<noteq> None"
    by (simp add: scheduleLoop_def l h chan_recv_def Let_def)
  then obtain s' where s': "scheduleLoop 0 SelectConfirmation ?s = Some s'"
    by blast
  have n: "sint (10 - time_Since 1 16) < 0"
    by (simp add: time_Since_def)
  from rearm_clamps_negative_wait [OF s' l h] n
  have "loops s' 0 = Some (Running AtSelect
      (Timer_Reset 16 time_Nanosecond \<lparr>expiry = None, timerC = []\<rparr>) 1)"
    by (auto simp: c)
  then show ?thesis
    using r s' n by (simp add: Timer_Reset_def time_when_Nanosecond)
qed

text \<open>
  Claim C8, as stated, fails: for the interval \<open>- 2 ^ 63\<close> and an elapsed time of one
  nanosecond the \<open>int64\<close> subtraction wraps to \<open>2 ^ 63 - 1\<close>, which is positive and is
  not clamped.
\<close>

theorem wait_wraps_at_minimal_interval:
  "sint (- (2 ^ 63) :: Duration) \<le> 0 \<and> 0 < sint (1 :: Duration) \<and>
   sint (waitTime (- (2 ^ 63)) 1) = 2 ^ 63 - 1 \<and>
   waitTime (- (2 ^ 63)) 1 \<noteq> time_Nanosecond"
  by (simp add: waitTime_def time_Nanosecond_def)

text \<open>
  Claim C8, amended: for an interval less than or equal to zero and a positive elapsed
  time, provided the \<open>int64\<close> subtraction does not wrap, the computed wait is clamped to
  one nanosecond and the timer is reset with one nanosecond, so that it expires one
  nanosecond later (for a clock reading below the largest \<open>int64\<close>).
\<close>

theorem nonpositive_interval_runs_back_to_back:
  assumes "scheduleLoop a SelectConfirmation s = Some s'"
    and "loops s a = Some (Running p timer startTime)" and "heap s a = Some sc"
    and "sint (interval sc) \<le> 0" and "startTime < clock s"
    and "- (2 ^ 63) \<le> sint (interval sc) - sint (time_Since startTime (clock s))"
  shows "waitTime (interval sc) (time_Since startTime (clock s)) = time_Nanosecond \<and>
    loops s' a = Some (Running AtSelect (Timer_Reset (clock s) time_Nanosecond timer) startTime) \<and>
    (0 \<le> clock s \<and> clock s < 2 ^ 63 - 1 \<longrightarrow>
       Timer_Reset (clock s) time_Nanosecond timer = timer\<lparr>expiry := Some (clock s + 1)\<rparr>)"
proof -
  have w: "waitTime (interval sc) (time_Since startTime (clock s)) = time_Nanosecond"
    using assms(4) sint_Since_pos [OF assms(5)] assms(6) by (rule waitTime_nonpos_interval)
  show ?thesis
    using SelectConfirmation_SomeD [OF assms(1)]
    by (auto simp: assms(2,3) w Timer_Reset_def time_when_Nanosecond)
qed

theorem nonpositive_interval_runs_back_to_back_witness:
  "run eager (New 0) \<noteq> None \<and>
   scheduleLoop 0 SelectConfirmation (the (run eager (New 0))) \<noteq> None \<and>
   sint (- 5 :: Duration) \<le> 0 \<and> (1 :: Time) < 4 \<and>
   - (2 ^ 63) \<le> sint (- 5 :: Duration) - sint (time_Since 1 4) \<and>
   (0 :: Time) \<le> 4 \<and> (4 :: Time) < 2 ^ 63 - 1 \<and>
   waitTime (- 5) (time_Since 1 4) = time_Nanosecond \<and>
   loops (the (scheduleLoop 0 SelectConfirmation (the (run eager (New 0))))) 0 =
     Some (Running AtSelect \<lparr>expiry = Some 5, timerC = []\<rparr> 1)"
proof -
  let ?s = "the (run eager (New 0)) :: unit state"
  have r: "run eager (New 0) \<noteq> (None :: unit state option)"
    by (simp add: eager_def sem_simps)
  have l: "loops ?s 0 = Some (Running AtSelect \<lparr>expiry = None, timerC = []\<rparr> 1)"
    by (simp add: eager_def sem_simps)
  have h: "heap ?s 0 = Some \<lparr>interval = - 5, worker = (),
      confirmationChannel = \<lparr>cap = 1, buf = [True]\<rparr>\<rparr>"
    by (simp add: eager_def sem_simps)
  have c: "clock ?s = 4"
    by (simp add: eager_def sem_simps)
  have "scheduleLoop 0 SelectConfirmation ?s \<noteq> None"
    by (simp add: scheduleLoop_def l h chan_recv_def Let_def)
  then obtain s' where s': "scheduleLoop 0 SelectConfirmation ?s = Some s'"
    by blast
  have i: "sint (- 5 :: Duration) \<le> 0" by simp
  have t: "(1 :: Time) < 4" by simp
  have n: "- (2 ^ 63) \<le> sint (- 5 :: Duration) - sint (time_Since 1 4)"
    by (simp add: time_Since_def)
  from nonpositive_interval_runs_back_to_back [OF s' l h] i t n
  have "waitTime (- 5) (time_Since 1 4) = time_Nanosecond \<and>
    loops s' 0 = Some (Running AtSelect \<lparr>expiry = Some 5, timerC = []\<rparr> 1)"
    by (simp add: c)
  then show ?thesis
    using r s' i n by simp
qed

text \<open>
  Claim C10: the minimal positive duration is one nanosecond in both places.  The first
  statement of every timing goroutine arms its timer with \<open>time.Nanosecond\<close>, and when
  the goroutine receives a confirmation and the computed wait is negative it resets the
  timer with \<open>time.Nanosecond\<close>; either timer expires one nanosecond later (for a clock
  reading below the largest \<open>int64\<close>).
\<close>

theorem minimal_duration_is_one_nanosecond:
  "sint time_Nanosecond = 1 \<and>
   (scheduleLoop a Start s = Some s' \<longrightarrow>
      loops s' a = Some (Running AtSelect (time_NewTimer (clock s) time_Nanosecond) (clock s)) \<and>
      (0 \<le> clock s \<and> clock s < 2 ^ 63 - 1 \<longrightarrow>
         loops s' a =
           Some (Running AtSelect \<lparr>expiry = Some (clock s + 1), timerC = []\<rparr> (clock s)))) \<and>
   (scheduleLoop b SelectConfirmation u = Some u' \<and>
    loops u b = Some (Running p timer startTime) \<and> heap u b = Some sc \<and>
    sint (interval sc - time_Since startTime (clock u)) < 0 \<longrightarrow>
      loops u' b =
        Some (Running AtSelect (Timer_Reset (clock u) time_Nanosecond timer) startTime) \<and>
      (0 \<le> clock u \<and> clock u < 2 ^ 63 - 1 \<longrightarrow>
         loops u' b =
           Some (Running AtSelect (timer\<lparr>expiry := Some (clock u + 1)\<rparr>) startTime)))"
proof -
  have 1: "loops s' a = Some (Running AtSelect (time_NewTimer (clock s) time_Nanosecond) (clock s)) \<and>
      (0 \<le> clock s \<and> clock s < 2 ^ 63 - 1 \<longrightarrow>
         loops s' a =
           Some (Running AtSelect \<lparr>expiry = Some (clock s + 1), timerC = []\<rparr> (clock s)))"
    if "scheduleLoop a Start s = Some s'"
    using Start_SomeD [OF that] by (auto simp: time_NewTimer_def time_when_Nanosecond)
  have 2: "loops u' b =
        Some (Running AtSelect (Timer_Reset (clock u) time_Nanosecond timer) startTime) \<and>
      (0 \<le> clock u \<and> clock u < 2 ^ 63 - 1 \<longrightarrow>
         loops u' b =
           Some (Running AtSelect (timer\<lparr>expiry := Some (clock u + 1)\<rparr>) startTime))"
    if "scheduleLoop b SelectConfirmation u = Some u'"
      and "loops u b = Some (Running p timer startTime)" and "heap u b = Some sc"
      and "sint (interval sc - time_Since startTime (clock u)) < 0"
    using SelectConfirmation_SomeD [OF that(1)] that(2-4)
    by (auto simp: waitTime_negative Timer_Reset_def time_when_Nanosecond)
  from 1 2 sint_Nanosecond show ?thesis by blast
qed

theorem minimal_duration_is_one_nanosecond_witness:
  "sint time_Nanosecond = 1 \<and>
   scheduleLoop 0 Start (AddSchedule () 20 (New 7)) \<noteq> None \<and>
   (0 :: Time) \<le> 7 \<and> (7 :: Time) < 2 ^ 63 - 1 \<and>
   loops (the (scheduleLoop 0 Start (AddSchedule () 20 (New 7)))) 0 =
     Some (Running AtSelect \<lparr>expiry = Some 8, timerC = []\<rparr> 7) \<and>
   run overrun (New 0) \<noteq> None \<and>
   scheduleLoop 0 SelectConfirmation (the (run overrun (New 0))) \<noteq> None \<and>
   sint (10 - time_Since 1 16) < 0 \<and> (0 :: Time) \<le> 16 \<and> (16 :: Time) < 2 ^ 63 - 1 \<and>
   loops (the (scheduleLoop 0 SelectConfirmation (the (run overrun (New 0))))) 0 =
     Some (Running AtSelect \<lparr>expiry = Some 17, timerC = []\<rparr> 1)"
proof -
  let ?s = "AddSchedule () 20 (New 7) :: unit state"
  let ?u = "the (run overrun (New 0)) :: unit state"
  have "scheduleLoop 0 Start ?s \<noteq> None"
    by (simp add: sem_simps)
  then obtain s' where s': "scheduleLoop 0 Start ?s = Some s'"
    by blast
  have c: "clock ?s = 7"
    by (simp add: sem_simps)
  have r: "run overrun (New 0) \<noteq> (None :: unit state option)"
    by (simp add: overrun_def sem_simps)
  have l: "loops ?u 0 = Some (Running AtSelect \<lparr>expiry = None, timerC = []\<rparr> 1)"
    and h: "heap ?u 0 = Some \<lparr>interval = 10, worker = (),
      confirmationChannel = \<lparr>cap = 1, buf = [True]\<rparr>\<rparr>"
    and k: "clock ?u = 16"
    by (simp_all add: overrun_def sem_simps)
  have "scheduleLoop 0 SelectConfirmation ?u \<noteq> None"
    by (simp add: scheduleLoop_def l h chan_recv_def Let_def)
  then obtain u' where u': "scheduleLoop 0 SelectConfirmation ?u = Some u'"
    by blast
  have n: "sint (10 - time_Since 1 16) < 0"
    by (simp add: time_Since_def)
  from minimal_duration_is_one_nanosecond
    [of 0 ?s s' 0 ?u u' AtSelect "\<lparr>expiry = None, timerC = []\<rparr>" 1
      "\<lparr>interval = 10, worker = (), confirmationChannel = \<lparr>cap = 1, buf = [True]\<rparr>\<rparr>"]
    s' u' l h n
  have "sint time_Nanosecond = 1"
    "loops s' 0 = Some (Running AtSelect \<lparr>expiry = Some 8, timerC = []\<rparr> 7)"
    "loops u' 0 = Some (Running AtSelect \<lparr>expiry = Some 17, timerC = []\<rparr> 1)"
    by (auto simp: c k)
  with s' u' r n show ?thesis by simp
qed

section \<open>Dispatch and acknowledgment\<close>

lemma outstanding_le_tokens: "outstanding a s \<le> tokens a s"
  by (simp add: tokens_def)

lemma outstanding_quiet:
  assumes "tokens_ok s" and "chans_ok s" and "0 < outstanding a s"
  shows "\<exists>st. loops s a = Some (Running AtSelect \<lparr>expiry = None, timerC = []\<rparr> st)"
proof -
  have "tokens a s \<le> 1" using assms(1) by (rule tokens_le_1)
  with assms(3) have z: "loop_tokens (loops s a) = 0" and o: "tokens a s = 1"
    by (simp_all add: tokens_def)
  from o assms(1) have "a < brk s"
    by (simp add: tokens_ok_def split: if_splits)
  with assms(2) have "a \<in> dom (loops s)"
    by (simp add: chans_ok_def)
  then obtain l where l: "loops s a = Some l" by blast
  show ?thesis
  proof (cases l)
    case Spawned
    with z l show ?thesis by (simp add: loop_tokens_def)
  next
    case (Running p t st)
    with z l have "p = AtSelect" "expiry t = None" "timerC t = []"
      by (auto simp: loop_tokens_def split: option.splits loop_pc.splits)
    then have "t = \<lparr>expiry = None, timerC = []\<rparr>" by (cases t) simp
    with l Running \<open>p = AtSelect\<close> show ?thesis by simp
  qed
qed

lemma armed_outstanding:
  assumes "tokens_ok s" and "armed a s"
  shows "outstanding a s = 0"
proof -
  have "tokens a s \<le> 1" using assms(1) by (rule tokens_le_1)
  moreover have "1 \<le> loop_tokens (loops s a)"
    using assms(2)
    by (auto simp: armed_def loop_tokens_def split: option.splits loop_state.splits)
  ultimately show ?thesis by (simp add: tokens_def)
qed

lemma armed_step:
  assumes "step x s = Some s'" and "\<not> armed a s" and "armed a s'"
  shows "x = Loop a Start \<or> x = Loop a SelectConfirmation"
proof (cases x)
  case (Tick d)
  with assms show ?thesis by (auto simp: armed_def)
next
  case (Call_AddSchedule w i)
  with assms show ?thesis
    by (auto simp: armed_def AddSchedule_def Let_def split: if_splits)
next
  case (Expire b)
  with assms show ?thesis
    by (auto simp: armed_def Timer_expire_def dest!: Expire_SomeD split: if_splits)
next
  case (Loop b act)
  with assms show ?thesis
    by (cases act)
      (auto simp: armed_def
        dest!: Start_SomeD SelectTimer_SomeD Send_SomeD SelectConfirmation_SomeD
        split: if_splits option.splits)
next
  case (Worker act)
  with assms show ?thesis
    by (cases act) (auto simp: armed_def dest!: Recv_SomeD Return_SomeD Confirm_SomeD)
qed

text \<open>
  Claim C4: in every reachable state a Schedule has at most one outstanding dispatch.  While
  one is outstanding, its timing goroutine waits at the \<open>select\<close> with a timer that is
  neither running nor expired with a pending value, and the only step after which the timer
  runs again is the goroutine's receive of the confirmation, which leaves no dispatch of the
  Schedule outstanding.  The clock may advance by any amount between two steps, so the
  statement covers every interval and every duration of a job.
\<close>

theorem at_most_one_dispatch_in_flight:
  assumes "run xs (New t0) = Some s"
  shows "outstanding a s \<le> 1 \<and>
    (0 < outstanding a s \<longrightarrow>
       (\<exists>st. loops s a = Some (Running AtSelect \<lparr>expiry = None, timerC = []\<rparr> st)) \<and>
       (\<forall>x s'. step x s = Some s' \<and> armed a s' \<longrightarrow>
          x = Loop a SelectConfirmation \<and> outstanding a s' = 0))"
proof -
  have t: "tokens_ok s" and c: "chans_ok s"
    using assms by (rule reachable_tokens_ok, rule reachable_chans_ok)
  have 1: "outstanding a s \<le> 1"
    using outstanding_le_tokens [of a s] tokens_le_1 [OF t, of a] by simp
  have 2: "x = Loop a SelectConfirmation \<and> outstanding a s' = 0"
    if o: "0 < outstanding a s" and x: "step x s = Some s'" and a: "armed a s'" for x s'
  proof -
    from outstanding_quiet [OF t c o] obtain st where
      l: "loops s a = Some (Running AtSelect \<lparr>expiry = None, timerC = []\<rparr> st)" by blast
    then have n: "\<not> armed a s" by (simp add: armed_def)
    from armed_step [OF x n a] have "x = Loop a Start \<or> x = Loop a SelectConfirmation" .
    moreover have "x \<noteq> Loop a Start"
      using x l by (auto dest!: Start_SomeD)
    moreover have "tokens_ok s'" using t x by (rule tokens_ok_step)
    then have "outstanding a s' = 0" using a by (rule armed_outstanding)
    ultimately show ?thesis by simp
  qed
  from 1 2 outstanding_quiet [OF t c] show ?thesis by blast
qed

theorem at_most_one_dispatch_in_flight_witness:
  "run overrun (New 0) \<noteq> None \<and>
   outstanding 0 (the (run overrun (New 0))) = 1 \<and>
   loops (the (run overrun (New 0))) 0 =
     Some (Running AtSelect \<lparr>expiry = None, timerC = []\<rparr> 1) \<and>
   step (Loop 0 SelectConfirmation) (the (run overrun (New 0))) \<noteq> None \<and>
   armed 0 (the (step (Loop 0 SelectConfirmation) (the (run overrun (New 0))))) \<and>
   outstanding 0 (the (step (Loop 0 SelectConfirmation) (the (run overrun (New 0))))) = 0"
proof -
  let ?s = "the (run overrun (New 0)) :: unit state"
  have r0: "run overrun (New 0) \<noteq> (None :: unit state option)"
    by (simp add: overrun_def sem_simps)
  then have r: "run overrun (New 0) = Some ?s"
    by auto
  have o: "outstanding 0 ?s = 1"
    by (simp add: overrun_def sem_simps outstanding_def held_def unreceived_def)
  have "step (Loop 0 SelectConfirmation) ?s \<noteq> None"
    by (simp add: overrun_def sem_simps)
  then obtain s' where s': "step (Loop 0 SelectConfirmation) ?s = Some s'"
    by blast
  have a: "armed 0 s'"
    using s' by (simp add: overrun_def sem_simps armed_def) auto
  have "0 < outstanding 0 ?s"
    using o by simp
  with at_most_one_dispatch_in_flight [OF r, of 0]
  have q: "\<exists>st. loops ?s 0 = Some (Running AtSelect \<lparr>expiry = None, timerC = []\<rparr> st)"
    and n: "\<forall>x s'. step x ?s = Some s' \<and> armed 0 s' \<longrightarrow>
          x = Loop 0 SelectConfirmation \<and> outstanding 0 s' = 0"
    by blast+
  from n s' a have z: "outstanding 0 s' = 0"
    by blast
  note q
  moreover have "\<exists>t. loops ?s 0 = Some (Running AtSelect t 1)"
    by (simp add: overrun_def sem_simps)
  ultimately have "loops ?s 0 = Some (Running AtSelect \<lparr>expiry = None, timerC = []\<rparr> 1)"
    by auto
  with r0 o s' a z show ?thesis by simp
qed

text \<open>
  Claim C5, as stated, fails: \<open>jobch\<close> is buffered with capacity 1, so while the consumer
  is inside \<open>PerformWork\<close> of Schedule 0 and the buffer is empty, the send of Schedule 1
  succeeds and its run is queued while the consumer is busy.
\<close>

theorem send_succeeds_while_consumer_busy:
  "map_option worker_at (run busy_consumer (New 0)) = Some (AtPerformWork 0) \<and>
   map_option (buf \<circ> jobch \<circ> scheduler) (run busy_consumer (New 0)) = Some [] \<and>
   map_option worker_at (run (busy_consumer @ [Loop 1 Send]) (New 0)) = Some (AtPerformWork 0) \<and>
   map_option (buf \<circ> jobch \<circ> scheduler) (run (busy_consumer @ [Loop 1 Send]) (New 0)) = Some [1]"
  by (simp add: busy_consumer_def sem_simps)

lemma Send_enabled:
  assumes "loops s a = Some (Running AtSend timer st)" and "heap s a \<noteq> None"
  shows "scheduleLoop a Send s = None \<longleftrightarrow>
    \<not> length (buf (jobch (scheduler s))) < cap (jobch (scheduler s))"
  using assms by (auto simp: scheduleLoop_def chan_send_def)

text \<open>
  Claim C5, amended: in every reachable state the send of a timing goroutine blocks exactly
  while the single slot of \<open>jobch\<close> is occupied, whatever the consumer is doing, and at
  most one run is queued in \<open>jobch\<close>.
\<close>

theorem send_blocks_only_on_full_channel:
  assumes "run xs (New t0) = Some s" and "loops s a = Some (Running AtSend timer st)"
  shows "(scheduleLoop a Send s = None \<longleftrightarrow> buf (jobch (scheduler s)) \<noteq> []) \<and>
    length (buf (jobch (scheduler s))) \<le> 1"
proof -
  have c: "chans_ok s" using assms(1) by (rule reachable_chans_ok)
  from assms(2) have "a \<in> dom (loops s)" by blast
  with c have h: "heap s a \<noteq> None" by (auto simp: chans_ok_def)
  from c have "cap (jobch (scheduler s)) = 1" "length (buf (jobch (scheduler s))) \<le> 1"
    by (simp_all add: chans_ok_def)
  with Send_enabled [OF assms(2) h] show ?thesis by auto
qed

theorem send_blocks_only_on_full_channel_witness:
  "run busy_consumer (New 0) \<noteq> None \<and>
   loops (the (run busy_consumer (New 0))) 1 =
     Some (Running AtSend \<lparr>expiry = None, timerC = []\<rparr> 1) \<and>
   buf (jobch (scheduler (the (run busy_consumer (New 0))))) = [] \<and>
   scheduleLoop 1 Send (the (run busy_consumer (New 0))) \<noteq> None"
proof -
  let ?s = "the (run busy_consumer (New 0)) :: unit state"
  have r0: "run busy_consumer (New 0) \<noteq> (None :: unit state option)"
    by (simp add: busy_consumer_def sem_simps)
  then have r: "run busy_consumer (New 0) = Some ?s"
    by auto
  have l: "loops ?s 1 = Some (Running AtSend \<lparr>expiry = None, timerC = []\<rparr> 1)"
    by (simp add: busy_consumer_def sem_simps)
  have b: "buf (jobch (scheduler ?s)) = []"
    by (simp add: busy_consumer_def sem_simps)
  from send_blocks_only_on_full_channel [OF r l] b
  have "scheduleLoop 1 Send ?s \<noteq> None" by simp
  with r0 l b show ?thesis by simp
qed

section \<open>Registration\<close>

text \<open>
  Claim C9: in every reachable state \<open>AddSchedule\<close> does not block; it appends the
  fresh address to \<open>schedules\<close>, stores at it a Schedule with the given worker and
  interval and an empty confirmation channel of capacity 1, starts the timing goroutine of
  the new Schedule, and leaves every other Schedule, every other goroutine, \<open>jobch\<close>,
  the consumer, the clock and the observations unchanged: no run has taken place when it
  returns.
\<close>

theorem AddSchedule_appends_one_schedule:
  assumes "run xs (New t0) = Some s"
  shows "step (Call_AddSchedule w ival) s = Some (AddSchedule w ival s) \<and>
    schedules (scheduler (AddSchedule w ival s)) = schedules (scheduler s) @ [brk s] \<and>
    brk s \<notin> set (schedules (scheduler s)) \<and> heap s (brk s) = None \<and>
    heap (AddSchedule w ival s) (brk s) =
      Some \<lparr>interval = ival, worker = w, confirmationChannel = \<lparr>cap = 1, buf = []\<rparr>\<rparr> \<and>
    (\<forall>a. a \<noteq> brk s \<longrightarrow>
       heap (AddSchedule w ival s) a = heap s a \<and> loops (AddSchedule w ival s) a = loops s a) \<and>
    jobch (scheduler (AddSchedule w ival s)) = jobch (scheduler s) \<and>
    worker_at (AddSchedule w ival s) = worker_at s \<and>
    clock (AddSchedule w ival s) = clock s \<and>
    observed (AddSchedule w ival s) = observed s \<and>
    loops (AddSchedule w ival s) (brk s) = Some Spawned"
proof -
  have c: "chans_ok s" using assms by (rule reachable_chans_ok)
  then have "brk s \<notin> set (schedules (scheduler s))" and "brk s \<notin> dom (heap s)"
    by (simp_all add: chans_ok_def)
  then show ?thesis
    by (auto simp: AddSchedule_def Let_def make_chan_def)
qed

theorem AddSchedule_appends_one_schedule_witness:
  "run two_registered (New 0) \<noteq> None \<and>
   schedules (scheduler (the (run two_registered (New 0)))) = [0, 1] \<and>
   schedules (scheduler (AddSchedule ''mail'' 50 (the (run two_registered (New 0))))) = [0, 1, 2] \<and>
   heap (AddSchedule ''mail'' 50 (the (run two_registered (New 0)))) 2 =
     Some \<lparr>interval = 50, worker = ''mail'', confirmationChannel = \<lparr>cap = 1, buf = []\<rparr>\<rparr> \<and>
   heap (AddSchedule ''mail'' 50 (the (run two_registered (New 0)))) 1 =
     Some \<lparr>interval = 30, worker = ''report'', confirmationChannel = \<lparr>cap = 1, buf = []\<rparr>\<rparr>"
proof -
  let ?s = "the (run two_registered (New 0)) :: string state"
  have r0: "run two_registered (New 0) \<noteq> (None :: string state option)"
    by (simp add: two_registered_def sem_simps)
  then have r: "run two_registered (New 0) = Some ?s"
    by auto
  have b: "brk ?s = 2" and l: "schedules (scheduler ?s) = [0, 1]"
    and h: "heap ?s 1 =
      Some \<lparr>interval = 30, worker = ''report'', confirmationChannel = \<lparr>cap = 1, buf = []\<rparr>\<rparr>"
    by (simp_all add: two_registered_def sem_simps)
  from AddSchedule_appends_one_schedule [OF r, of "''mail''" 50] b l h r0
  show ?thesis
    by simp
qed

text \<open>
  Claim C6, as stated, fails: Schedule 1 is registered when the clock reads 1, while the
  consumer is inside \<open>PerformWork\<close> of Schedule 0.  Its timer expires and its dispatch is
  buffered when the clock reads 2, but the consumer cannot receive it; the job of Schedule 0
  takes a millisecond, and the first execution of Schedule 1 begins at 1000002.
\<close>

theorem first_run_waits_for_busy_consumer:
  "map_option clock (run (take 8 registered_while_busy) (New 0)) = Some 1 \<and>
   map_option (\<lambda>s. (clock s, worker_at s, buf (jobch (scheduler s)), workerLoop Recv s))
     (run registered_while_busy (New 0)) = Some (2, AtPerformWork 0, [1], None) \<and>
   map_option observed (run (registered_while_busy @
       [Tick 1000000, Worker Return, Worker Confirm, Worker Recv]) (New 0)) =
     Some [Begin 0 1, Finish 0 1000002, Ack 0 1000002, Begin 1 1000002]"
  by (simp add: registered_while_busy_def sem_simps)

lemma Begin_observed_step:
  assumes "step x u = Some u'" and "Begin b t \<in> set (observed u')"
    and "Begin b t \<notin> set (observed u)"
  shows "x = Worker Recv \<and> worker_at u = AtRecv \<and>
    (\<exists>rest. buf (jobch (scheduler u)) = b # rest) \<and> t = clock u"
proof (cases x)
  case (Tick d)
  with assms show ?thesis by auto
next
  case (Call_AddSchedule w i)
  with assms show ?thesis by (auto simp: AddSchedule_def Let_def)
next
  case (Expire a)
  with assms show ?thesis by (auto dest!: Expire_SomeD)
next
  case (Loop a act)
  with assms show ?thesis
    by (cases act)
      (auto dest!: Start_SomeD SelectTimer_SomeD Send_SomeD SelectConfirmation_SomeD)
next
  case (Worker act)
  with assms show ?thesis
    by (cases act) (auto dest!: Recv_SomeD Return_SomeD Confirm_SomeD)
qed

text \<open>
  Claim C6, amended: whatever the interval, the first statement of the new timing goroutine
  arms its timer with one nanosecond, so that one nanosecond later the timer can expire and
  the goroutine moves to its send.  When the Schedule is registered while the consumer is
  idle and \<open>jobch\<close> is empty, its first execution can begin one nanosecond after
  registration.  In general an execution begins only by the consumer's receive, with the
  consumer at line 52 and the Schedule first in \<open>jobch\<close>: a Schedule registered while
  the consumer is busy waits for the job in progress.
\<close>

theorem first_timer_is_minimal:
  "(\<exists>s'. run [Call_AddSchedule w ival, Loop (brk s) Start] s = Some s' \<and>
      loops s' (brk s) =
        Some (Running AtSelect (time_NewTimer (clock s) time_Nanosecond) (clock s))) \<and>
   (0 \<le> clock s \<and> clock s < 2 ^ 63 - 1 \<longrightarrow>
      time_NewTimer (clock s) time_Nanosecond = \<lparr>expiry = Some (clock s + 1), timerC = []\<rparr> \<and>
      (\<exists>s'. run [Call_AddSchedule w ival, Loop (brk s) Start, Tick 1, Expire (brk s),
          Loop (brk s) SelectTimer] s = Some s' \<and>
        loops s' (brk s) =
          Some (Running AtSend \<lparr>expiry = None, timerC = []\<rparr> (clock s + 1)))) \<and>
   (run xs (New t0) = Some s \<and> worker_at s = AtRecv \<and> buf (jobch (scheduler s)) = [] \<and>
    0 \<le> clock s \<and> clock s < 2 ^ 63 - 1 \<longrightarrow>
      (\<exists>s'. run [Call_AddSchedule w ival, Loop (brk s) Start, Tick 1, Expire (brk s),
          Loop (brk s) SelectTimer, Loop (brk s) Send, Worker Recv] s = Some s' \<and>
        observed s' = observed s @ [Begin (brk s) (clock s + 1)])) \<and>
   (step x u = Some u' \<and> Begin b t \<in> set (observed u') \<and> Begin b t \<notin> set (observed u) \<longrightarrow>
      x = Worker Recv \<and> worker_at u = AtRecv \<and>
      (\<exists>rest. buf (jobch (scheduler u)) = b # rest) \<and> t = clock u)"
proof -
  have 1: "\<exists>s'. run [Call_AddSchedule w ival, Loop (brk s) Start] s = Some s' \<and>
      loops s' (brk s) =
        Some (Running AtSelect (time_NewTimer (clock s) time_Nanosecond) (clock s))"
    by (simp add: AddSchedule_def scheduleLoop_def Let_def)
  have 2: "time_NewTimer (clock s) time_Nanosecond = \<lparr>expiry = Some (clock s + 1), timerC = []\<rparr> \<and>
      (\<exists>s'. run [Call_AddSchedule w ival, Loop (brk s) Start, Tick 1, Expire (brk s),
          Loop (brk s) SelectTimer] s = Some s' \<and>
        loops s' (brk s) =
          Some (Running AtSend \<lparr>expiry = None, timerC = []\<rparr> (clock s + 1)))"
    if "0 \<le> clock s" "clock s < 2 ^ 63 - 1"
    using time_when_Nanosecond [OF that]
    by (simp add: AddSchedule_def scheduleLoop_def timer_expires_def time_NewTimer_def
        Timer_expire_def Let_def)
  have 3: "\<exists>s'. run [Call_AddSchedule w ival, Loop (brk s) Start, Tick 1, Expire (brk s),
          Loop (brk s) SelectTimer, Loop (brk s) Send, Worker Recv] s = Some s' \<and>
        observed s' = observed s @ [Begin (brk s) (clock s + 1)]"
    if "run xs (New t0) = Some s" "worker_at s = AtRecv" "buf (jobch (scheduler s)) = []"
      "0 \<le> clock s" "clock s < 2 ^ 63 - 1"
  proof -
    have "cap (jobch (scheduler s)) = 1"
      using that(1) by (intro chans_ok_cap reachable_chans_ok)
    with that(2,3) time_when_Nanosecond [OF that(4,5)] show ?thesis
      by (simp add: AddSchedule_def scheduleLoop_def workerLoop_def timer_expires_def
          chan_send_def chan_recv_def make_chan_def time_NewTimer_def Timer_expire_def Let_def)
  qed
  from 1 2 3 Begin_observed_step [of x u u' b t] show ?thesis by blast
qed

theorem first_timer_is_minimal_witness:
  "run late_job (New 0) \<noteq> None \<and>
   worker_at (the (run late_job (New 0))) = AtRecv \<and>
   buf (jobch (scheduler (the (run late_job (New 0))))) = [] \<and>
   brk (the (run late_job (New 0))) = 1 \<and> clock (the (run late_job (New 0))) = 21 \<and>
   (0 :: Time) \<le> 21 \<and> (21 :: Time) < 2 ^ 63 - 1 \<and>
   map_option (\<lambda>s. loops s 1)
     (run [Call_AddSchedule () hourly, Loop 1 Start] (the (run late_job (New 0)))) =
     Some (Some (Running AtSelect \<lparr>expiry = Some 22, timerC = []\<rparr> 21)) \<and>
   map_option (\<lambda>s. loops s 1)
     (run [Call_AddSchedule () hourly, Loop 1 Start, Tick 1, Expire 1, Loop 1 SelectTimer]
        (the (run late_job (New 0)))) =
     Some (Some (Running AtSend \<lparr>expiry = None, timerC = []\<rparr> 22)) \<and>
   map_option observed
     (run [Call_AddSchedule () hourly, Loop 1 Start, Tick 1, Expire 1, Loop 1 SelectTimer,
        Loop 1 Send, Worker Recv] (the (run late_job (New 0)))) =
     Some [Begin 0 1, Finish 0 21, Ack 0 21, Begin 1 22] \<and>
   step (Worker Recv) (the (run (take 6 late_job) (New 0))) \<noteq> None \<and>
   Begin 0 1 \<in> set (observed (the (step (Worker Recv) (the (run (take 6 late_job) (New 0)))))) \<and>
   Begin 0 1 \<notin> set (observed (the (run (take 6 late_job) (New 0)))) \<and>
   worker_at (the (run (take 6 late_job) (New 0))) = AtRecv \<and>
   buf (jobch (scheduler (the (run (take 6 late_job) (New 0))))) = [0] \<and>
   clock (the (run (take 6 late_job) (New 0))) = 1"
proof -
  let ?s = "the (run late_job (New 0)) :: unit state"
  let ?u = "the (run (take 6 late_job) (New 0)) :: unit state"
  have r0: "run late_job (New 0) \<noteq> (None :: unit state option)"
    by (simp add: late_job_def sem_simps)
  then have r: "run late_job (New 0) = Some ?s"
    by auto
  have w: "worker_at ?s = AtRecv" and b: "buf (jobch (scheduler ?s)) = []"
    and k: "brk ?s = 1" and c: "clock ?s = 21"
    and o: "observed ?s = [Begin 0 1, Finish 0 21, Ack 0 21]"
    by (simp_all add: late_job_def sem_simps)
  have "step (Worker Recv) ?u \<noteq> None"
    by (simp add: late_job_def sem_simps)
  then obtain u' where u': "step (Worker Recv) ?u = Some u'"
    by blast
  have i: "Begin 0 1 \<in> set (observed u')"
    using u' by (auto simp: late_job_def sem_simps)
  have n: "Begin 0 1 \<notin> set (observed ?u)"
    by (simp add: late_job_def sem_simps)
  note T = first_timer_is_minimal [of "()" hourly ?s late_job 0 "Worker Recv" ?u u' 0 1]
  have g: "0 \<le> clock ?s \<and> clock ?s < 2 ^ 63 - 1"
    by (simp add: c)
  from T obtain s1 where
    1: "run [Call_AddSchedule () hourly, Loop (brk ?s) Start] ?s = Some s1"
      "loops s1 (brk ?s) =
        Some (Running AtSelect (time_NewTimer (clock ?s) time_Nanosecond) (clock ?s))"
    by blast
  from T g have
    2: "time_NewTimer (clock ?s) time_Nanosecond = \<lparr>expiry = Some (clock ?s + 1), timerC = []\<rparr>"
    by blast
  from T g obtain s2 where
    3: "run [Call_AddSchedule () hourly, Loop (brk ?s) Start, Tick 1, Expire (brk ?s),
          Loop (brk ?s) SelectTimer] ?s = Some s2"
      "loops s2 (brk ?s) = Some (Running AtSend \<lparr>expiry = None, timerC = []\<rparr> (clock ?s + 1))"
    by blast
  from T r w b g obtain s3 where
    4: "run [Call_AddSchedule () hourly, Loop (brk ?s) Start, Tick 1, Expire (brk ?s),
          Loop (brk ?s) SelectTimer, Loop (brk ?s) Send, Worker Recv] ?s = Some s3"
      "observed s3 = observed ?s @ [Begin (brk ?s) (clock ?s + 1)]"
    by blast
  from T u' i n have
    5: "worker_at ?u = AtRecv" "\<exists>rest. buf (jobch (scheduler ?u)) = 0 # rest" "1 = clock ?u"
    by blast+
  have 6: "buf (jobch (scheduler ?u)) = [0]"
    by (simp add: late_job_def sem_simps)
  have 7: "step (Worker Recv) ?u \<noteq> None" "Begin 0 1 \<in> set (observed (the (step (Worker Recv) ?u)))"
    using u' i by simp_all
  have 8: "map_option (\<lambda>s. loops s 1) (run [Call_AddSchedule () hourly, Loop 1 Start] ?s) =
      Some (Some (Running AtSelect \<lparr>expiry = Some 22, timerC = []\<rparr> 21))"
    using 1 2 unfolding k c by simp
  have 9: "map_option (\<lambda>s. loops s 1)
      (run [Call_AddSchedule () hourly, Loop 1 Start, Tick 1, Expire 1, Loop 1 SelectTimer] ?s) =
      Some (Some (Running AtSend \<lparr>expiry = None, timerC = []\<rparr> 22))"
    using 3 unfolding k c by simp
  have 10: "map_option observed
      (run [Call_AddSchedule () hourly, Loop 1 Start, Tick 1, Expire 1, Loop 1 SelectTimer,
        Loop 1 Send, Worker Recv] ?s) = Some [Begin 0 1, Finish 0 21, Ack 0 21, Begin 1 22]"
    using 4 unfolding k c o by simp
  from r0 w b k c 5 6 7 8 9 10 n show ?thesis
    by (intro conjI) simp_all
qed

section \<open>The consumer\<close>

lemma running_replay: "replay p l = Some q \<Longrightarrow> running (inside p) l = inside q"
proof (induction l arbitrary: p)
  case Nil
  then show ?case by simp
next
  case (Cons e l)
  from Cons.prems obtain p' where o: "observe p e = Some p'" and r: "replay p' l = Some q"
    by (auto split: option.splits)
  from o have "running (inside p) (e # l) = running (inside p') l"
    by (cases "(p, e)" rule: observe.cases) (auto split: if_splits)
  with Cons.IH [OF r] show ?case by simp
qed

lemma executions_Begin: "x \<in> set (executions l) \<Longrightarrow> Begin (fst x) (fst (snd x)) \<in> set l"
  by (induction l rule: executions.induct) auto

lemma non_overlapping_replay:
  "replay p l = Some q \<Longrightarrow> sorted (map obs_time l) \<Longrightarrow> non_overlapping (executions l)"
proof (induction l arbitrary: p)
  case Nil
  then show ?case by simp
next
  case (Cons e l)
  from Cons.prems(1) obtain p' where o: "observe p e = Some p'" and r: "replay p' l = Some q"
    by (auto split: option.splits)
  from Cons.prems(2) have s: "sorted (map obs_time l)" by simp
  have IH: "non_overlapping (executions l)" using r s by (rule Cons.IH)
  show ?case
  proof (cases e)
    case (Begin a t)
    with o have p': "p' = AtPerformWork a"
      by (cases p) auto
    have "list_all (ends_before (finish_of a l)) (executions l)"
    proof (cases l)
      case Nil
      then show ?thesis by simp
    next
      case (Cons e' l')
      with r p' obtain t' where e': "e' = Finish a t'"
        by (cases e') (auto split: option.splits if_splits)
      have "t' \<le> fst (snd x)" if "x \<in> set (executions l')" for x
      proof -
        from that have "Begin (fst x) (fst (snd x)) \<in> set l'" by (rule executions_Begin)
        then have "fst (snd x) \<in> obs_time ` set l'" by force
        with s Cons e' show ?thesis by auto
      qed
      with Cons e' show ?thesis
        by (simp add: list_all_iff ends_before_def)
    qed
    with IH Begin show ?thesis by simp
  next
    case (Finish a t)
    with IH show ?thesis by simp
  next
    case (Ack a t)
    with IH show ?thesis by simp
  qed
qed

text \<open>
  Claim C3: in every reachable state of a Scheduler at most one Schedule is inside
  \<open>PerformWork\<close>, and the executions observed so far do not overlap: each has finished
  before every later one begins.
\<close>

theorem jobs_are_serialized:
  assumes "run xs (New t0) = Some s"
  shows "running [] (observed s) = inside (worker_at s) \<and>
    length (running [] (observed s)) \<le> 1 \<and>
    non_overlapping (executions (observed s))"
proof -
  have l: "log_ok s" using assms by (rule reachable_log_ok)
  then have r: "replay AtRecv (observed s) = Some (worker_at s)"
    and t: "sorted (map obs_time (observed s))"
    by (simp_all add: log_ok_def)
  from running_replay [OF r] have 1: "running [] (observed s) = inside (worker_at s)"
    by simp
  have 2: "length (inside (worker_at s)) \<le> 1"
    by (cases "worker_at s") simp_all
  from 1 2 non_overlapping_replay [OF r t] show ?thesis by simp
qed

theorem jobs_are_serialized_witness:
  "run two_jobs (New 0) \<noteq> None \<and>
   observed (the (run two_jobs (New 0))) = [Begin 0 1, Finish 0 6, Ack 0 6, Begin 1 6] \<and>
   clock (the (run two_jobs (New 0))) = 9 \<and>
   running [] (observed (the (run two_jobs (New 0)))) = [1] \<and>
   executions (observed (the (run two_jobs (New 0)))) = [(0, 1, Some 6), (1, 6, None)] \<and>
   non_overlapping (executions (observed (the (run two_jobs (New 0)))))"
proof -
  let ?s = "the (run two_jobs (New 0)) :: unit state"
  have r0: "run two_jobs (New 0) \<noteq> (None :: unit state option)"
    by (simp add: two_jobs_def busy_consumer_def sem_simps)
  then have r: "run two_jobs (New 0) = Some ?s"
    by auto
  have o: "observed ?s = [Begin 0 1, Finish 0 6, Ack 0 6, Begin 1 6]"
    and c: "clock ?s = 9" and w: "worker_at ?s = AtPerformWork 1"
    by (simp_all add: two_jobs_def busy_consumer_def sem_simps)
  have e: "executions (observed ?s) = [(0, 1, Some 6), (1, 6, None)]"
    by (simp add: o)
  from jobs_are_serialized [OF r] w
  have "running [] (observed ?s) = [1]" "non_overlapping (executions (observed ?s))"
    by simp_all
  with r0 o c e show ?thesis by simp
qed

lemma Confirm_never_blocks:
  assumes "tokens_ok s" and "chans_ok s" and "worker_at s = AtConfirm a"
  shows "workerLoop Confirm s \<noteq> None"
proof -
  have "tokens a s \<le> 1" using assms(1) by (rule tokens_le_1)
  moreover have h: "held a (worker_at s) = 1" using assms(3) by (simp add: held_def)
  ultimately have u: "unreceived (heap s a) = 0" and t: "tokens a s = 1"
    by (simp_all add: tokens_def outstanding_def)
  from t assms(1) have "a < brk s"
    by (simp add: tokens_ok_def split: if_splits)
  with assms(2) have "a \<in> dom (heap s)"
    by (simp add: chans_ok_def)
  then obtain sc where sc: "heap s a = Some sc" by blast
  with assms(2) have "cap (confirmationChannel sc) = 1"
    by (simp add: chans_ok_def)
  with u sc assms(3) show ?thesis
    by (simp add: workerLoop_def chan_send_def unreceived_def)
qed

text \<open>
  Claim C7: \<open>New\<close> gives a Scheduler with no schedules, an empty job channel of
  capacity 1 and the consumer at its receive.  In every reachable state the observations
  are rounds of \<open>workerLoop\<close>; the consumer blocks at the receive exactly while
  \<open>jobch\<close> is empty, cannot confirm before \<open>PerformWork\<close> has returned, and its
  confirmation never blocks, after which it is at the receive again.  The receive takes the
  first Schedule of \<open>jobch\<close>, and the confirmation is appended to the confirmation
  channel of that Schedule and of no other.
\<close>

theorem consumer_loop_serves_one_schedule_at_a_time:
  "schedules (scheduler (New t0)) = [] \<and>
   jobch (scheduler (New t0)) = \<lparr>cap = 1, buf = []\<rparr> \<and>
   worker_at (New t0) = AtRecv \<and>
   (run xs (New t0) = Some s \<longrightarrow>
      replay AtRecv (observed s) = Some (worker_at s) \<and>
      (case worker_at s of
         AtRecv \<Rightarrow> (workerLoop Recv s = None) = (buf (jobch (scheduler s)) = [])
       | AtPerformWork a \<Rightarrow> workerLoop Return s \<noteq> None \<and> workerLoop Confirm s = None
       | AtConfirm a \<Rightarrow> workerLoop Confirm s \<noteq> None)) \<and>
   (workerLoop Recv s = Some s' \<longrightarrow>
      (\<exists>a rest. buf (jobch (scheduler s)) = a # rest \<and> buf (jobch (scheduler s')) = rest \<and>
         worker_at s' = AtPerformWork a)) \<and>
   (workerLoop Return s = Some s' \<longrightarrow>
      (\<exists>a. worker_at s = AtPerformWork a \<and> worker_at s' = AtConfirm a \<and> heap s' = heap s)) \<and>
   (workerLoop Confirm s = Some s' \<longrightarrow>
      (\<exists>a sc sc'. worker_at s = AtConfirm a \<and> heap s a = Some sc \<and> heap s' a = Some sc' \<and>
         buf (confirmationChannel sc') = buf (confirmationChannel sc) @ [True] \<and>
         (\<forall>b. b \<noteq> a \<longrightarrow> heap s' b = heap s b) \<and> worker_at s' = AtRecv))"
proof -
  have 1: "schedules (scheduler (New t0)) = [] \<and>
    jobch (scheduler (New t0)) = \<lparr>cap = 1, buf = []\<rparr> \<and> worker_at (New t0) = AtRecv"
    by (simp add: New_def make_chan_def)
  have 2: "replay AtRecv (observed s) = Some (worker_at s) \<and>
      (case worker_at s of
         AtRecv \<Rightarrow> (workerLoop Recv s = None) = (buf (jobch (scheduler s)) = [])
       | AtPerformWork a \<Rightarrow> workerLoop Return s \<noteq> None \<and> workerLoop Confirm s = None
       | AtConfirm a \<Rightarrow> workerLoop Confirm s \<noteq> None)"
    if r: "run xs (New t0) = Some s"
  proof -
    have l: "log_ok s" and t: "tokens_ok s" and c: "chans_ok s"
      using r by (rule reachable_log_ok, rule reachable_tokens_ok, rule reachable_chans_ok)
    show ?thesis
    proof (cases "worker_at s")
      case AtRecv
      with l show ?thesis
        by (auto simp: log_ok_def workerLoop_def chan_recv_def split: list.splits)
    next
      case (AtPerformWork a)
      with l show ?thesis
        by (auto simp: log_ok_def workerLoop_def)
    next
      case (AtConfirm a)
      with l Confirm_never_blocks [OF t c AtConfirm] show ?thesis
        by (auto simp: log_ok_def)
    qed
  qed
  have 3: "\<exists>a rest. buf (jobch (scheduler s)) = a # rest \<and> buf (jobch (scheduler s')) = rest \<and>
         worker_at s' = AtPerformWork a" if "workerLoop Recv s = Some s'"
    using Recv_SomeD [OF that] by auto
  have 4: "\<exists>a. worker_at s = AtPerformWork a \<and> worker_at s' = AtConfirm a \<and> heap s' = heap s"
    if "workerLoop Return s = Some s'"
    using Return_SomeD [OF that] by auto
  have 5: "\<exists>a sc sc'. worker_at s = AtConfirm a \<and> heap s a = Some sc \<and> heap s' a = Some sc' \<and>
         buf (confirmationChannel sc') = buf (confirmationChannel sc) @ [True] \<and>
         (\<forall>b. b \<noteq> a \<longrightarrow> heap s' b = heap s b) \<and> worker_at s' = AtRecv"
    if "workerLoop Confirm s = Some s'"
    using Confirm_SomeD [OF that] by auto
  from 1 2 3 4 5 show ?thesis by blast
qed

theorem consumer_loop_serves_one_schedule_at_a_time_witness:
  "schedules (scheduler (New 0 :: unit state)) = [] \<and>
   jobch (scheduler (New 0 :: unit state)) = \<lparr>cap = 1, buf = []\<rparr> \<and>
   run two_jobs (New 0) \<noteq> None \<and>
   worker_at (the (run two_jobs (New 0))) = AtPerformWork 1 \<and>
   replay AtRecv [Begin 0 1, Finish 0 6, Ack 0 6, Begin 1 6] = Some (AtPerformWork 1) \<and>
   workerLoop Return (the (run two_jobs (New 0))) \<noteq> None \<and>
   workerLoop Confirm (the (run two_jobs (New 0))) = None"
proof -
  let ?s = "the (run two_jobs (New 0)) :: unit state"
  have r0: "run two_jobs (New 0) \<noteq> (None :: unit state option)"
    by (simp add: two_jobs_def busy_consumer_def sem_simps)
  then have r: "run two_jobs (New 0) = Some ?s"
    by auto
  have o: "observed ?s = [Begin 0 1, Finish 0 6, Ack 0 6, Begin 1 6]"
    and w: "worker_at ?s = AtPerformWork 1"
    by (simp_all add: two_jobs_def busy_consumer_def sem_simps)
  from consumer_loop_serves_one_schedule_at_a_time [of 0 two_jobs ?s] r
  have "schedules (scheduler (New 0 :: unit state)) = []"
    "jobch (scheduler (New 0 :: unit state)) = \<lparr>cap = 1, buf = []\<rparr>"
    "replay AtRecv (observed ?s) = Some (worker_at ?s)"
    "case worker_at ?s of
         AtRecv \<Rightarrow> (workerLoop Recv ?s = None) = (buf (jobch (scheduler ?s)) = [])
       | AtPerformWork a \<Rightarrow> workerLoop Return ?s \<noteq> None \<and> workerLoop Confirm ?s = None
       | AtConfirm a \<Rightarrow> workerLoop Confirm ?s \<noteq> None"
    by blast+
  with r0 o w show ?thesis by simp
qed

section \<open>Compensation\<close>

lemma begins_append: "begins (l @ l') = begins l @ begins l'"
  by (induction l rule: begins.induct) auto

lemma firedD:
  assumes "fired a s"
  obtains st sc where "worker_at s = AtRecv" "jobch (scheduler s) = \<lparr>cap = 1, buf = []\<rparr>"
    "loops s a = Some (Running AtSelect \<lparr>expiry = None, timerC = [clock s]\<rparr> st)"
    "heap s a = Some sc" "confirmationChannel sc = \<lparr>cap = 1, buf = []\<rparr>"
proof -
  from assms obtain t st sc where 1: "worker_at s = AtRecv"
    "jobch (scheduler s) = \<lparr>cap = 1, buf = []\<rparr>"
    "loops s a = Some (Running AtSelect t st)" "heap s a = Some sc"
    "expiry t = None" "timerC t = [clock s]" "confirmationChannel sc = \<lparr>cap = 1, buf = []\<rparr>"
    by (auto simp: fired_def split: option.splits loop_state.splits loop_pc.splits)
  then have "t = \<lparr>expiry = None, timerC = [clock s]\<rparr>" by (cases t) simp
  with 1 that show ?thesis by blast
qed

lemmas run_simps = AddSchedule_def scheduleLoop_def workerLoop_def timer_expires_def
  chan_send_def chan_recv_def make_chan_def time_NewTimer_def Timer_Reset_def Timer_expire_def
  Let_def

lemma sint_Since_Tick:
  assumes "int d < 2 ^ 63"
  shows "time_Since t (t + int d) = word_of_nat d"
  using assms by (simp add: time_Since_def)

lemma one_cycle:
  assumes f: "fired a s" and h: "heap s a = Some sc" and c: "0 \<le> clock s"
    and b: "clock s + int d +
      sint (waitTime (interval sc) (time_Since (clock s) (clock s + int d))) < 2 ^ 63"
  shows "\<exists>s1 s2. run (job_cycle a d) s = Some s1 \<and>
    until_expiry a s1 =
      nat (sint (waitTime (interval sc) (time_Since (clock s) (clock s + int d)))) \<and>
    run [Tick (until_expiry a s1), Expire a] s1 = Some s2 \<and>
    fired a s2 \<and> heap s2 a = Some sc \<and>
    clock s2 = clock s + int d +
      sint (waitTime (interval sc) (time_Since (clock s) (clock s + int d))) \<and>
    observed s2 = observed s @
      [Begin a (clock s), Finish a (clock s + int d), Ack a (clock s + int d)]"
proof -
  from f obtain st sc' where *: "worker_at s = AtRecv"
    "jobch (scheduler s) = \<lparr>cap = 1, buf = []\<rparr>"
    "loops s a = Some (Running AtSelect \<lparr>expiry = None, timerC = [clock s]\<rparr> st)"
    "heap s a = Some sc'" "confirmationChannel sc' = \<lparr>cap = 1, buf = []\<rparr>"
    by (rule firedD)
  with h have sc: "sc' = sc" by simp
  let ?w = "waitTime (interval sc) (time_Since (clock s) (clock s + int d))"
  have w: "0 \<le> sint ?w"
    by (rule waitTime_nonneg)
  have e: "time_when (clock s + int d) ?w = clock s + int d + sint ?w"
    using c w b by (intro time_when_exact) auto
  show ?thesis
    using * w e unfolding sc
    by (simp add: job_cycle_def run_simps until_expiry_def fired_def)
qed

lemma starts_from_first: "t \<in> set (starts_from t ival ds)"
  by (cases ds) simp_all

lemma undelayed_starts:
  assumes "fired a s" and "heap s a = Some sc" and "\<forall>d \<in> set ds. int d < 2 ^ 63"
    and "0 \<le> clock s" and "\<forall>t \<in> set (starts_from (clock s) (interval sc) ds). t < 2 ^ 63"
  shows "\<exists>s'. undelayed a ds s =
      Some (map (\<lambda>d. nat (sint (waitTime (interval sc) (word_of_nat d)))) ds, s') \<and>
    fired a s' \<and> heap s' a = Some sc \<and>
    begins (observed s') @ [clock s'] =
      begins (observed s) @ starts_from (clock s) (interval sc) ds"
  using assms
proof (induction ds arbitrary: s)
  case Nil
  then show ?case by simp
next
  case (Cons d ds)
  from Cons.prems(3) have d: "int d < 2 ^ 63" and ds: "\<forall>d \<in> set ds. int d < 2 ^ 63"
    by simp_all
  let ?w = "sint (waitTime (interval sc) (word_of_nat d))"
  let ?t = "clock s + int d + ?w"
  from Cons.prems(5) have ts: "\<forall>t \<in> set (starts_from ?t (interval sc) ds). t < 2 ^ 63"
    by simp
  with starts_from_first [of ?t "interval sc" ds] have t: "?t < 2 ^ 63"
    by blast
  have "0 \<le> ?w" by (rule waitTime_nonneg)
  with Cons.prems(4) have t0: "0 \<le> ?t" by simp
  from one_cycle [OF Cons.prems(1,2,4), of d] t obtain s1 s2 where
    1: "run (job_cycle a d) s = Some s1" "until_expiry a s1 = nat ?w"
      "run [Tick (until_expiry a s1), Expire a] s1 = Some s2"
    and 2: "fired a s2" "heap s2 a = Some sc"
    and 3: "clock s2 = ?t"
      "observed s2 = observed s @
        [Begin a (clock s), Finish a (clock s + int d), Ack a (clock s + int d)]"
    unfolding sint_Since_Tick [OF d] by blast
  from t0 ts 3(1) have 5: "0 \<le> clock s2"
    "\<forall>t \<in> set (starts_from (clock s2) (interval sc) ds). t < 2 ^ 63"
    by simp_all
  from Cons.IH [OF 2 ds 5] obtain s' where
    4: "undelayed a ds s2 =
      Some (map (\<lambda>d. nat (sint (waitTime (interval sc) (word_of_nat d)))) ds, s')"
      "fired a s'" "heap s' a = Some sc"
      "begins (observed s') @ [clock s'] =
        begins (observed s2) @ starts_from (clock s2) (interval sc) ds"
    by blast
  have "undelayed a (d # ds) s =
      Some (map (\<lambda>d. nat (sint (waitTime (interval sc) (word_of_nat d)))) (d # ds), s')"
    using 1 4(1) by simp
  moreover have "begins (observed s') @ [clock s'] =
      begins (observed s) @ starts_from (clock s) (interval sc) (d # ds)"
    using 4(4) 3 by (simp add: begins_append)
  ultimately show ?case using 4(2,3) by blast
qed

lemma sint_of_nat64:
  assumes "int d < 2 ^ 63"
  shows "sint (word_of_nat d :: Duration) = int d"
proof -
  have "(word_of_nat d :: Duration) = word_of_int (int d)"
    by simp
  then have "sint (word_of_nat d :: Duration) = signed_take_bit 63 (int d)"
    by (simp only: sint_sbintrunc') simp
  also have "\<dots> = int d"
    using assms by (simp add: signed_take_bit_int_eq_self)
  finally show ?thesis .
qed

lemma wait_after_run:
  assumes "0 \<le> sint ival" and "int d < 2 ^ 63"
  shows "sint (waitTime ival (word_of_nat d)) =
    (if sint ival < int d then 1 else sint ival - int d)"
  using waitTime_nonneg_interval [OF assms(1), of "word_of_nat d"]
  unfolding sint_of_nat64 [OF assms(2)] by simp


lemma startTime_step:
  assumes "chans_ok s" and "step x s = Some s'" and "x \<noteq> Loop a SelectTimer"
    and "loops s a = Some (Running p t st)"
  shows "\<exists>p' t'. loops s' a = Some (Running p' t' st)"
proof (cases x)
  case (Tick d)
  with assms show ?thesis by auto
next
  case (Call_AddSchedule w i)
  from assms(1,4) have "a \<noteq> brk s"
    by (auto simp: chans_ok_def)
  with Call_AddSchedule assms show ?thesis
    by (auto simp: AddSchedule_def Let_def)
next
  case (Expire b)
  with assms show ?thesis
    by (auto dest!: Expire_SomeD split: if_splits)
next
  case (Loop b act)
  with assms show ?thesis
    by (cases act)
      (auto dest!: Start_SomeD SelectTimer_SomeD Send_SomeD SelectConfirmation_SomeD
        split: if_splits)
next
  case (Worker act)
  with assms show ?thesis
    by (cases act) (auto dest!: Recv_SomeD Return_SomeD Confirm_SomeD)
qed

lemma interval_step:
  assumes "chans_ok s" and "step x s = Some s'" and "heap s a = Some sc"
  shows "\<exists>sc'. heap s' a = Some sc' \<and> interval sc' = interval sc"
proof (cases x)
  case (Tick d)
  with assms show ?thesis by auto
next
  case (Call_AddSchedule w i)
  from assms(1,3) have "a \<noteq> brk s"
    by (auto simp: chans_ok_def)
  with Call_AddSchedule assms show ?thesis
    by (auto simp: AddSchedule_def Let_def)
next
  case (Expire b)
  with assms show ?thesis
    by (auto dest!: Expire_SomeD)
next
  case (Loop b act)
  with assms show ?thesis
    by (cases act)
      (auto dest!: Start_SomeD SelectTimer_SomeD Send_SomeD SelectConfirmation_SomeD
        split: if_splits)
next
  case (Worker act)
  with assms show ?thesis
    by (cases act) (auto dest!: Recv_SomeD Return_SomeD Confirm_SomeD split: if_splits)
qed

lemma startTime_run:
  assumes "chans_ok s" and "run xs s = Some s'" and "Loop a SelectTimer \<notin> set xs"
    and "loops s a = Some (Running p t st)" and "heap s a = Some sc"
  shows "\<exists>p' t' sc'. loops s' a = Some (Running p' t' st) \<and>
    heap s' a = Some sc' \<and> interval sc' = interval sc"
  using assms
proof (induction xs arbitrary: s p t sc)
  case Nil
  then show ?case by simp
next
  case (Cons x xs)
  from Cons.prems(2) obtain s1 where 1: "step x s = Some s1" and 2: "run xs s1 = Some s'"
    by (auto split: option.splits)
  from Cons.prems(3) have n: "x \<noteq> Loop a SelectTimer" "Loop a SelectTimer \<notin> set xs"
    by auto
  from startTime_step [OF Cons.prems(1) 1 n(1) Cons.prems(4)] obtain p1 t1 where
    3: "loops s1 a = Some (Running p1 t1 st)" by blast
  from interval_step [OF Cons.prems(1) 1 Cons.prems(5)] obtain sc1 where
    4: "heap s1 a = Some sc1" "interval sc1 = interval sc" by blast
  have "chans_ok s1" using Cons.prems(1) 1 by (rule chans_ok_step)
  from Cons.IH [OF this 2 n(2) 3 4(1)] 4(2) show ?case by auto
qed

lemma wait_from_timer_receive:
  assumes "run ys (New t0) = Some s0" and "heap s0 a = Some sc"
    and "scheduleLoop a SelectTimer s0 = Some s1" and "run xs s1 = Some s2"
    and "Loop a SelectTimer \<notin> set xs" and "scheduleLoop a SelectConfirmation s2 = Some s3"
  shows "\<exists>timer. loops s2 a = Some (Running AtSelect timer (clock s0)) \<and>
    loops s3 a = Some (Running AtSelect
      (Timer_Reset (clock s2) (waitTime (interval sc) (time_Since (clock s0) (clock s2))) timer)
      (clock s0))"
proof -
  have c0: "chans_ok s0" using assms(1) by (rule reachable_chans_ok)
  have "step (Loop a SelectTimer) s0 = Some s1" using assms(3) by simp
  with c0 have c1: "chans_ok s1" by (rule chans_ok_step)
  from SelectTimer_SomeD [OF assms(3)] assms(2) obtain t1 where
    l1: "loops s1 a = Some (Running AtSend t1 (clock s0))" and h1: "heap s1 a = Some sc"
    by auto
  from startTime_run [OF c1 assms(4,5) l1 h1] obtain p2 t2 sc2 where
    2: "loops s2 a = Some (Running p2 t2 (clock s0))" "heap s2 a = Some sc2"
      "interval sc2 = interval sc"
    by blast
  from SelectConfirmation_SomeD [OF assms(6)] 2 show ?thesis
    by auto
qed

lemma run_append:
  "run (xs @ ys) s = (case run xs s of None \<Rightarrow> None | Some s' \<Rightarrow> run ys s')"
  by (induction xs arbitrary: s) (auto split: option.splits)

text \<open>
  Claim C1, as stated, fails in its example: for the interval 20 and the durations 5, 10
  and 1 the computed waits are 15, 10 and 19, and the runs start at 0, 20, 40 and 60 after
  the first start, not at 0, 20, 30 and 49.
\<close>

theorem documented_example_starts:
  "map_option (\<lambda>(ws, s'). (ws, map (\<lambda>t. t - 1) (begins (observed s') @ [clock s'])))
     (undelayed 0 [5, 10, 1] (the (run (boot () 20) (New 0)))) =
     Some ([15, 10, 19], [0, 20, 40, 60]) \<and>
   map_option (\<lambda>(ws, s'). map (\<lambda>t. t - 1) (begins (observed s') @ [clock s']))
     (undelayed 0 [5, 10, 1] (the (run (boot () 20) (New 0)))) \<noteq> Some [0, 20, 30, 49]"
  by (simp add: boot_def job_cycle_def until_expiry_def sem_simps)

text \<open>
  Claim C1, amended.  In every run, the timer is reset with \<open>waitTime\<close> of the
  interval and the time elapsed since the timing goroutine received from its timer (line
  90), whatever happened in between; for a non-negative interval that wait is the interval
  minus the elapsed time, or one nanosecond when that is negative.  For a Schedule that runs
  without delay, while the clock readings stay below \<open>2 ^ 63\<close>, the time from the start
  of a run to the start of the next is the duration of the run plus that wait: the larger
  of the interval and the duration plus one nanosecond, except that it is the interval when
  the duration equals the interval.
\<close>

theorem wait_compensates_elapsed_time:
  "(run ys (New t0) = Some s0 \<and> heap s0 b = Some sb \<and>
    scheduleLoop b SelectTimer s0 = Some s1 \<and> run xs s1 = Some s2 \<and>
    Loop b SelectTimer \<notin> set xs \<and> scheduleLoop b SelectConfirmation s2 = Some s3 \<longrightarrow>
      (\<exists>timer. loops s2 b = Some (Running AtSelect timer (clock s0)) \<and>
         loops s3 b = Some (Running AtSelect
           (Timer_Reset (clock s2)
              (waitTime (interval sb) (time_Since (clock s0) (clock s2))) timer)
           (clock s0)))) \<and>
   (0 \<le> sint ival \<and> t \<le> now \<and> now - t < 2 ^ 63 \<longrightarrow>
      sint (waitTime ival (time_Since t now)) =
        (if sint ival < now - t then 1 else sint ival - (now - t))) \<and>
   (fired a s \<and> heap s a = Some sc \<and> 0 \<le> sint (interval sc) \<and> 0 \<le> clock s \<and>
    (\<forall>d \<in> set ds. int d < 2 ^ 63) \<and>
    (\<forall>t \<in> set (starts_from (clock s) (interval sc) ds). t < 2 ^ 63) \<longrightarrow>
      (\<exists>s'. undelayed a ds s =
          Some (map (\<lambda>d. nat (sint (waitTime (interval sc) (word_of_nat d)))) ds, s') \<and>
        begins (observed s') @ [clock s'] =
          begins (observed s) @ starts_from (clock s) (interval sc) ds) \<and>
      (\<forall>d \<in> set ds.
        sint (waitTime (interval sc) (word_of_nat d)) =
          (if sint (interval sc) < int d then 1 else sint (interval sc) - int d) \<and>
        int d + sint (waitTime (interval sc) (word_of_nat d)) =
          (if int d = sint (interval sc) then sint (interval sc)
           else max (sint (interval sc)) (int d + 1))))"
proof -
  have 1: "\<exists>timer. loops s2 b = Some (Running AtSelect timer (clock s0)) \<and>
         loops s3 b = Some (Running AtSelect
           (Timer_Reset (clock s2)
              (waitTime (interval sb) (time_Since (clock s0) (clock s2))) timer)
           (clock s0))"
    if "run ys (New t0) = Some s0" "heap s0 b = Some sb"
      "scheduleLoop b SelectTimer s0 = Some s1" "run xs s1 = Some s2"
      "Loop b SelectTimer \<notin> set xs" "scheduleLoop b SelectConfirmation s2 = Some s3"
    using that by (rule wait_from_timer_receive)
  have 2: "sint (waitTime ival (time_Since t now)) =
        (if sint ival < now - t then 1 else sint ival - (now - t))"
    if "0 \<le> sint ival" "t \<le> now" "now - t < 2 ^ 63"
  proof -
    have e: "sint (time_Since t now) = now - t"
      using that(2,3) by (intro sint_Since_exact) auto
    with that(2) have "0 \<le> sint (time_Since t now)" by simp
    from waitTime_nonneg_interval [OF that(1) this] e show ?thesis by simp
  qed
  have 3: "(\<exists>s'. undelayed a ds s =
          Some (map (\<lambda>d. nat (sint (waitTime (interval sc) (word_of_nat d)))) ds, s') \<and>
        begins (observed s') @ [clock s'] =
          begins (observed s) @ starts_from (clock s) (interval sc) ds) \<and>
      (\<forall>d \<in> set ds.
        sint (waitTime (interval sc) (word_of_nat d)) =
          (if sint (interval sc) < int d then 1 else sint (interval sc) - int d) \<and>
        int d + sint (waitTime (interval sc) (word_of_nat d)) =
          (if int d = sint (interval sc) then sint (interval sc)
           else max (sint (interval sc)) (int d + 1)))"
    if f: "fired a s" and h: "heap s a = Some sc" and i: "0 \<le> sint (interval sc)"
      and c: "0 \<le> clock s" and d: "\<forall>d \<in> set ds. int d < 2 ^ 63"
      and b: "\<forall>t \<in> set (starts_from (clock s) (interval sc) ds). t < 2 ^ 63"
  proof -
    have "sint (waitTime (interval sc) (word_of_nat d)) =
          (if sint (interval sc) < int d then 1 else sint (interval sc) - int d) \<and>
        int d + sint (waitTime (interval sc) (word_of_nat d)) =
          (if int d = sint (interval sc) then sint (interval sc)
           else max (sint (interval sc)) (int d + 1))" if "d \<in> set ds" for d
    proof -
      from that d have "int d < 2 ^ 63" by blast
      from wait_after_run [OF i this] show ?thesis by auto
    qed
    with undelayed_starts [OF f h d c b] show ?thesis by blast
  qed
  from 1 2 3 show ?thesis by blast
qed

theorem wait_compensates_elapsed_time_witness:
  "run (boot () 20) (New 0) \<noteq> None \<and>
   scheduleLoop 0 SelectTimer (the (run (boot () 20) (New 0))) \<noteq> None \<and>
   run delayed_dispatch (the (scheduleLoop 0 SelectTimer (the (run (boot () 20) (New 0))))) \<noteq> None \<and>
   Loop 0 SelectTimer \<notin> set delayed_dispatch \<and>
   map_option (\<lambda>s. (clock s, loops s 0))
     (run (boot () 20 @ [Loop 0 SelectTimer] @ delayed_dispatch @ [Loop 0 SelectConfirmation])
        (New 0)) =
     Some (13, Some (Running AtSelect \<lparr>expiry = Some 21, timerC = []\<rparr> 1)) \<and>
   0 \<le> sint (20 :: Duration) \<and> (1 :: Time) \<le> 13 \<and> (13 :: Time) - 1 < 2 ^ 63 \<and>
   sint (waitTime 20 (time_Since 1 13)) = 8 \<and>
   fired 0 (the (run (boot () 20) (New 0))) \<and>
   clock (the (run (boot () 20) (New 0))) = 1 \<and>
   int 5 < 2 ^ 63 \<and> int 10 < 2 ^ 63 \<and> int 1 < 2 ^ 63 \<and>
   starts_from 1 20 [5, 10, 1] = [1, 21, 41, 61] \<and>
   map_option fst (undelayed 0 [5, 10, 1] (the (run (boot () 20) (New 0)))) =
     Some [15, 10, 19] \<and>
   map_option (\<lambda>(ws, s'). begins (observed s') @ [clock s'])
     (undelayed 0 [5, 10, 1] (the (run (boot () 20) (New 0)))) = Some [1, 21, 41, 61]"
proof -
  let ?s = "the (run (boot () 20) (New 0)) :: unit state"
  let ?sc = "\<lparr>interval = 20 :: Duration, worker = (),
      confirmationChannel = \<lparr>cap = 1, buf = []\<rparr>\<rparr>"
  have r0: "run (boot () 20) (New 0) \<noteq> (None :: unit state option)"
    by (simp add: boot_def sem_simps)
  then have r: "run (boot () 20) (New 0) = Some ?s"
    by auto
  have f: "fired 0 ?s"
    by (simp add: boot_def sem_simps fired_def)
  have h: "heap ?s 0 = Some ?sc" and c: "clock ?s = 1" and o: "observed ?s = []"
    by (simp_all add: boot_def sem_simps)
  have "scheduleLoop 0 SelectTimer ?s \<noteq> None"
    by (simp add: boot_def sem_simps)
  then obtain s1 where s1: "scheduleLoop 0 SelectTimer ?s = Some s1"
    by blast
  have "run delayed_dispatch s1 \<noteq> None"
    using s1 by (auto simp: boot_def delayed_dispatch_def sem_simps)
  then obtain s2 where s2: "run delayed_dispatch s1 = Some s2"
    by blast
  have c2: "clock s2 = 13"
    using s1 s2 by (auto simp: boot_def delayed_dispatch_def sem_simps)
  have "scheduleLoop 0 SelectConfirmation s2 \<noteq> None"
    using s1 s2 by (auto simp: boot_def delayed_dispatch_def sem_simps)
  then obtain s3 where s3: "scheduleLoop 0 SelectConfirmation s2 = Some s3"
    by blast
  have n: "Loop 0 SelectTimer \<notin> set delayed_dispatch"
    by (simp add: delayed_dispatch_def)
  have i: "0 \<le> sint (20 :: Duration)" by simp
  have d: "\<forall>d \<in> set [5, 10, 1 :: nat]. int d < 2 ^ 63"
    by simp
  have st: "starts_from 1 20 [5, 10, 1] = [1, 21, 41, 61]"
    by (simp add: waitTime_def time_Nanosecond_def)
  have b: "\<forall>t \<in> set (starts_from (clock ?s) (interval ?sc) [5, 10, 1]). t < 2 ^ 63"
    by (simp add: c waitTime_def time_Nanosecond_def)
  note T = wait_compensates_elapsed_time
    [of "boot () 20" 0 ?s 0 ?sc s1 delayed_dispatch s2 s3 20 1 13 0 ?s ?sc "[5, 10, 1]"]
  from T r h s1 s2 n s3 obtain timer where
    1: "loops s2 0 = Some (Running AtSelect timer 1)"
      "loops s3 0 = Some (Running AtSelect
           (Timer_Reset 13 (waitTime 20 (time_Since 1 13)) timer) 1)"
    unfolding c c2 by auto
  from T have 2: "sint (waitTime 20 (time_Since 1 13)) = 8"
    by simp
  from T f h c d b obtain s' where
    3: "undelayed 0 [5, 10, 1] ?s =
        Some (map (\<lambda>d. nat (sint (waitTime 20 (word_of_nat d)))) [5, 10, 1], s')"
      "begins (observed s') @ [clock s'] = begins (observed ?s) @ starts_from (clock ?s) 20 [5, 10, 1]"
    by auto
  from 3 have 4: "undelayed 0 [5, 10, 1] ?s = Some ([15, 10, 19], s')"
    "begins (observed s') @ [clock s'] = [1, 21, 41, 61]"
    by (simp_all add: c o st waitTime_def time_Nanosecond_def)
  have t: "timer = \<lparr>expiry = None, timerC = []\<rparr>"
    using 1(1) s1 s2 by (auto simp: boot_def delayed_dispatch_def sem_simps)
  have 5: "loops s3 0 = Some (Running AtSelect \<lparr>expiry = Some 21, timerC = []\<rparr> 1)"
    using 1(2) 2 unfolding t
    by (simp add: Timer_Reset_def time_when_exact)
  have 6: "run (boot () 20 @ [Loop 0 SelectTimer] @ delayed_dispatch @ [Loop 0 SelectConfirmation])
        (New 0) = Some s3"
  proof -
    from r0 obtain s0 where a: "run (boot () 20) (New 0) = Some s0"
      by blast
    with s1 s2 s3 show ?thesis
      by (simp add: run_append)
  qed
  have 7: "run delayed_dispatch (the (scheduleLoop 0 SelectTimer ?s)) \<noteq> None"
    using s1 s2 by simp
  have 8: "scheduleLoop 0 SelectTimer ?s \<noteq> None"
    using s1 by simp
  have 9: "clock s3 = 13"
    using SelectConfirmation_SomeD [OF s3] c2 by auto
  from r0 8 7 n 6 9 5 i 2 f c d st 4 show ?thesis
    by (intro conjI) simp_all
qed

end
